theory Spec2Isabelle
  imports Main "HOL-Library.Word" "HOL-Library.Log_Nat" "HOL-Library.Monad_Syntax"
begin

section \<open>simpleperf stat: counter summaries\<close>

text \<open>
  The development follows \<^verbatim>\<open>simpleperf/cmd_stat.cpp\<close>: the value type
  \<^verbatim>\<open>CounterSummary\<close>, the collection \<^verbatim>\<open>CounterSummaries\<close> and the parts of
  \<^verbatim>\<open>StatCommand\<close> that aggregate counter readouts, parse the options and wait for
  the termination flag.  Unsigned 64-bit counters are \<open>64 word\<close> (addition wraps),
  \<^verbatim>\<open>std::vector\<close> is a list, a possibly null pointer is an \<open>option\<close>.
\<close>

subsection \<open>Values of type double\<close>

text \<open>
  A finite \<^verbatim>\<open>double\<close> is the rational number it denotes.  Every arithmetic
  operation of the source is the exact operation followed by \<open>round_double\<close>, which
  rounds to the nearest number with a 53-bit significand, ties to the even significand
  (IEEE 754 binary64, the default rounding mode).  The exponent is not bounded here:
  overflow and gradual underflow lie outside the model.  The values \<^verbatim>\<open>-0.0\<close>,
  infinities and NaN are not represented either: where the source divides by a number
  that may be zero, the model uses \<open>ddiv_opt\<close>, and \<open>None\<close> says that the quotient is
  not an ordinary finite number.
\<close>

type_synonym double = rat

definition round_half_even :: "rat \<Rightarrow> int" where
  "round_half_even x =
     (let f = \<lfloor>x\<rfloor>; d = x - of_int f
      in if d < 1 / 2 then f else if 1 / 2 < d then f + 1
         else if even f then f else f + 1)"

text \<open>The exponent \<open>k\<close> with \<open>2 powi k \<le> x < 2 powi (k + 1)\<close>, for positive \<open>x\<close>.\<close>

definition binade :: "rat \<Rightarrow> int" where
  "binade x =
     (if 1 \<le> x then bitlen \<lfloor>x\<rfloor> - 1 else - bitlen (\<lceil>1 / x\<rceil> - 1))"

definition round_double :: "rat \<Rightarrow> double" where
  "round_double x =
     (if x = 0 then 0
      else let e = binade \<bar>x\<bar> - 52
           in sgn x * (of_int (round_half_even (\<bar>x\<bar> / 2 powi e)) * 2 powi e))"

text \<open>\<^verbatim>\<open>static_cast<double>\<close> of a \<^verbatim>\<open>uint64_t\<close>, also where the conversion is implicit.\<close>

definition double_of_u64 :: "64 word \<Rightarrow> double" where
  "double_of_u64 w = round_double (of_nat (unat w))"

text \<open>Division, multiplication and subtraction of finite doubles, the divisor not zero.\<close>

definition ddiv :: "double \<Rightarrow> double \<Rightarrow> double" where
  "ddiv a b = round_double (a / b)"

definition dmul :: "double \<Rightarrow> double \<Rightarrow> double" where
  "dmul a b = round_double (a * b)"

definition dsub :: "double \<Rightarrow> double \<Rightarrow> double" where
  "dsub a b = round_double (a - b)"

text \<open>
  Division by a number that may be zero.  \<^verbatim>\<open>x / 0\<close> is an infinity or NaN and
  \<^verbatim>\<open>0 / b\<close> with negative \<open>b\<close> is \<^verbatim>\<open>-0.0\<close>: both are \<open>None\<close>.
\<close>

definition ddiv_opt :: "double \<Rightarrow> double \<Rightarrow> double option" where
  "ddiv_opt a b = (if b = 0 \<or> (a = 0 \<and> b < 0) then None else Some (ddiv a b))"

subsection \<open>Formatted output\<close>

definition digit_char :: "nat \<Rightarrow> char" where
  "digit_char d = ''0123456789'' ! d"

text \<open>The decimal digits of a number, as \<^verbatim>\<open>"%" PRIu64\<close> prints them.\<close>

fun decimal :: "nat \<Rightarrow> string" where
  "decimal n = (if n < 10 then [digit_char n] else decimal (n div 10) @ [digit_char (n mod 10)])"

definition zero_pad :: "nat \<Rightarrow> string \<Rightarrow> string" where
  "zero_pad p s = replicate (p - length s) CHR ''0'' @ s"

text \<open>
  \<^verbatim>\<open>"%.<p>lf"\<close>: the value rounded to \<open>p\<close> decimals, ties to even, from the exact
  value of the double.  \<^verbatim>\<open>"%lf"\<close> is \<open>printf_f 6\<close>.
\<close>

definition printf_f :: "nat \<Rightarrow> double \<Rightarrow> string" where
  "printf_f p x =
     (let n = nat (round_half_even (\<bar>x\<bar> * 10 ^ p))
      in (if x < 0 then ''-'' else []) @ decimal (n div 10 ^ p) @
         (if p = 0 then [] else CHR ''.'' # zero_pad p (decimal (n mod 10 ^ p))))"

text \<open>\<^verbatim>\<open>android::base::EndsWith\<close>.\<close>

definition EndsWith :: "string \<Rightarrow> string \<Rightarrow> bool" where
  "EndsWith s suffix =
     (length suffix \<le> length s \<and> drop (length s - length suffix) s = suffix)"

subsection \<open>CounterSummary\<close>

record CounterSummary =
  type_name :: string
  modifier :: string
  group_id :: "32 word"
  count :: "64 word"
  scale :: double
  readable_count :: string
  comment :: string
  auto_generated :: bool

text \<open>
  The loop of \<^verbatim>\<open>ReadableCountValue\<close>:
  \<^verbatim>\<open>for (size_t i = s.size() - 1, j = 1; i > 0; --i, ++j)
    if (j == 3) { s.insert(s.begin() + i, ','); j = 0; }\<close>
  The string holds the digits of a number and is never empty (\<open>decimal_not_Nil\<close>), so
  \<^verbatim>\<open>s.size() - 1\<close> does not wrap around.
\<close>

fun comma_loop :: "nat \<Rightarrow> nat \<Rightarrow> string \<Rightarrow> string" where
  "comma_loop i j s =
     (if 0 < i
      then (if j = 3 then comma_loop (i - 1) 1 (take i s @ CHR '','' # drop i s)
            else comma_loop (i - 1) (j + 1) s)
      else s)"

definition ReadableCountValue :: "string \<Rightarrow> 64 word \<Rightarrow> bool \<Rightarrow> string" where
  "ReadableCountValue tname cnt csv =
     (if tname = ''cpu-clock'' \<or> tname = ''task-clock''
      then (let v = ddiv (double_of_u64 cnt) 1000000 in printf_f 6 v @ ''(ms)'')
      else (let s = decimal (unat cnt)
            in if csv then s else comma_loop (length s - 1) 1 s))"

text \<open>
  The grouping in the words of the specification: a separator every three digits, from
  the least-significant end.  It is compared with \<open>comma_loop\<close> below.
\<close>

function group_thousands :: "string \<Rightarrow> string" where
  "group_thousands s =
     (if length s \<le> 3 then s
      else group_thousands (take (length s - 3) s) @ CHR '','' # drop (length s - 3) s)"
  by pat_completeness auto
termination
  by (relation "measure length") auto

text \<open>The constructor; \<^verbatim>\<open>comment\<close> is default-initialised.\<close>

definition new_CounterSummary ::
  "string \<Rightarrow> string \<Rightarrow> 32 word \<Rightarrow> 64 word \<Rightarrow> double \<Rightarrow> bool \<Rightarrow> bool \<Rightarrow> CounterSummary" where
  "new_CounterSummary tname m gid cnt sc auto csv =
     \<lparr>type_name = tname, modifier = m, group_id = gid, count = cnt, scale = sc,
      readable_count = ReadableCountValue tname cnt csv, comment = [],
      auto_generated = auto\<rparr>"

definition SCALE_ERROR_LIMIT :: double where
  "SCALE_ERROR_LIMIT = round_double (1 / 100000)"

definition IsMonitoredAllTheTime :: "CounterSummary \<Rightarrow> bool" where
  "IsMonitoredAllTheTime s \<longleftrightarrow> \<bar>dsub (scale s) 1\<bar> < SCALE_ERROR_LIMIT"

definition IsMonitoredAtTheSameTime :: "CounterSummary \<Rightarrow> CounterSummary \<Rightarrow> bool" where
  "IsMonitoredAtTheSameTime s other =
     (if group_id s = group_id other then True
      else IsMonitoredAllTheTime s \<and> IsMonitoredAllTheTime other)"

definition Name :: "CounterSummary \<Rightarrow> string" where
  "Name s = (if modifier s = [] then type_name s else type_name s @ '':'' @ modifier s)"

subsection \<open>StatCommand::ShowCounters: aggregation of the readouts\<close>

text \<open>
  The types of the readouts are declared in \<^verbatim>\<open>event_fd.h\<close> and
  \<^verbatim>\<open>event_selection_set.h\<close>; the records have the fields that \<^verbatim>\<open>ShowCounters\<close>
  reads.  The field \<open>val\<close> is \<^verbatim>\<open>counter.value\<close>; \<open>event_name\<close>, \<open>event_modifier\<close> and
  \<open>selection_group_id\<close> are the name, the modifier and the group of the selection.
\<close>

record PerfCounter =
  val :: "64 word"
  time_enabled :: "64 word"
  time_running :: "64 word"
  id :: "64 word"

record CounterInfo =
  tid :: int
  cpu :: int
  counter :: PerfCounter

record CountersInfo =
  event_name :: string
  event_modifier :: string
  selection_group_id :: "32 word"
  counters :: "CounterInfo list"

text \<open>
  The inner loop over the readouts of one selection; the triple is
  \<^verbatim>\<open>(value_sum, time_enabled_sum, time_running_sum)\<close>.  Then the scale, and the body
  of the outer loop, which makes the summary of one selection.
\<close>

fun sum_counters ::
  "CounterInfo list \<Rightarrow> 64 word \<times> 64 word \<times> 64 word \<Rightarrow> 64 word \<times> 64 word \<times> 64 word" where
  "sum_counters [] acc = acc"
| "sum_counters (c # cs) (value_sum, time_enabled_sum, time_running_sum) =
     (if time_running (counter c) \<noteq> 0
      then sum_counters cs (value_sum + val (counter c),
             time_enabled_sum + time_enabled (counter c),
             time_running_sum + time_running (counter c))
      else sum_counters cs (value_sum, time_enabled_sum, time_running_sum))"

definition compute_scale :: "64 word \<Rightarrow> 64 word \<Rightarrow> double" where
  "compute_scale time_enabled_sum time_running_sum =
     (if time_running_sum < time_enabled_sum \<and> time_running_sum \<noteq> 0
      then ddiv (double_of_u64 time_enabled_sum) (double_of_u64 time_running_sum)
      else 1)"

definition summarize :: "bool \<Rightarrow> CountersInfo \<Rightarrow> CounterSummary" where
  "summarize csv ci =
     (case sum_counters (counters ci) (0, 0, 0) of
        (value_sum, time_enabled_sum, time_running_sum) \<Rightarrow>
          new_CounterSummary (event_name ci) (event_modifier ci) (selection_group_id ci)
            value_sum (compute_scale time_enabled_sum time_running_sum) False csv)"

subsection \<open>CounterSummaries\<close>

text \<open>
  The collection is the vector \<^verbatim>\<open>summaries_\<close>; the flag \<^verbatim>\<open>csv_\<close> is passed to the
  functions that read it.  \<open>FindSummary\<close> returns the first summary with the given type
  name and modifier, \<open>None\<close> for \<^verbatim>\<open>nullptr\<close>.
\<close>

definition AddSummary :: "CounterSummary list \<Rightarrow> CounterSummary \<Rightarrow> CounterSummary list" where
  "AddSummary ss s = ss @ [s]"

fun FindSummary :: "CounterSummary list \<Rightarrow> string \<Rightarrow> string \<Rightarrow> CounterSummary option" where
  "FindSummary [] tname m = None"
| "FindSummary (s # ss) tname m =
     (if type_name s = tname \<and> modifier s = m then Some s else FindSummary ss tname m)"

text \<open>The body of the loop of \<^verbatim>\<open>AutoGenerateSummaries\<close>, for \<^verbatim>\<open>s = summaries_[i]\<close>.\<close>

definition generate_for :: "bool \<Rightarrow> CounterSummary list \<Rightarrow> CounterSummary \<Rightarrow> CounterSummary list" where
  "generate_for csv ss s =
     (if modifier s = ''u''
      then (case FindSummary ss (type_name s) ''k'' of
              None \<Rightarrow> ss
            | Some other \<Rightarrow>
                if IsMonitoredAtTheSameTime other s
                then (if FindSummary ss (type_name s) [] = None
                      then AddSummary ss
                             (new_CounterSummary (type_name s) [] (group_id s)
                                (count s + count other) (scale s) True csv)
                      else ss)
                else ss)
      else ss)"

text \<open>
  \<^verbatim>\<open>for (size_t i = 0; i < summaries_.size(); ++i)\<close>: the bound is read again in
  every round, so the loop also visits the summaries it has appended.
\<close>

function AutoGenerateSummaries_loop ::
  "bool \<Rightarrow> nat \<Rightarrow> CounterSummary list \<Rightarrow> CounterSummary list" where
  "AutoGenerateSummaries_loop csv i ss =
     (if i < length ss
      then AutoGenerateSummaries_loop csv (i + 1) (generate_for csv ss (ss ! i))
      else ss)"
  by pat_completeness auto
termination
proof (relation "measure (\<lambda>(csv, i, ss).
    (length ss - i) + length (filter (\<lambda>s. modifier s = ''u'') (drop i ss)))")
  show "wf (measure (\<lambda>(csv, i, ss).
    (length ss - i) + length (filter (\<lambda>s. modifier s = ''u'') (drop i ss))))"
    by simp
next
  fix csv :: bool and i :: nat and ss :: "CounterSummary list"
  assume i: "i < length ss"
  let ?u = "\<lambda>s. modifier s = ''u''"
  have d: "drop i ss = ss ! i # drop (Suc i) ss"
    using i by (simp add: Cons_nth_drop_Suc)
  have "generate_for csv ss (ss ! i) = ss \<or>
    (?u (ss ! i) \<and> (\<exists>g. generate_for csv ss (ss ! i) = ss @ [g] \<and> modifier g = []))"
    by (simp add: generate_for_def AddSummary_def new_CounterSummary_def split: option.split)
  then show "((csv, i + 1, generate_for csv ss (ss ! i)), (csv, i, ss))
    \<in> measure (\<lambda>(csv, i, ss). (length ss - i) + length (filter ?u (drop i ss)))"
  proof
    assume "generate_for csv ss (ss ! i) = ss"
    then show ?thesis
      using i by (auto simp add: d)
  next
    assume "?u (ss ! i) \<and> (\<exists>g. generate_for csv ss (ss ! i) = ss @ [g] \<and> modifier g = [])"
    then obtain g where "?u (ss ! i)" "generate_for csv ss (ss ! i) = ss @ [g]" "modifier g = []"
      by blast
    then show ?thesis
      using i by (auto simp add: d)
  qed
qed

definition AutoGenerateSummaries :: "bool \<Rightarrow> CounterSummary list \<Rightarrow> CounterSummary list" where
  "AutoGenerateSummaries csv ss = AutoGenerateSummaries_loop csv 0 ss"

subsection \<open>CounterSummaries::GetCommentForSummary\<close>

definition sap_mid :: "bool \<Rightarrow> char" where
  "sap_mid csv = (if csv then CHR '','' else CHR '' '')"

text \<open>The branch for \<^verbatim>\<open>instructions\<close>: \<open>None\<close> when it does not return.\<close>

definition cpi_comment :: "bool \<Rightarrow> CounterSummary list \<Rightarrow> CounterSummary \<Rightarrow> string option" where
  "cpi_comment csv ss s =
     (if type_name s = ''instructions'' \<and> count s \<noteq> 0
      then (case FindSummary ss ''cpu-cycles'' (modifier s) of
              None \<Rightarrow> None
            | Some other \<Rightarrow>
                if IsMonitoredAtTheSameTime other s
                then (let cpi = ddiv (double_of_u64 (count other)) (double_of_u64 (count s))
                      in Some (printf_f 6 cpi @ sap_mid csv # ''cycles per instruction''))
                else None)
      else None)"

definition misses_other_name :: "string \<Rightarrow> string" where
  "misses_other_name tname =
     (if tname = ''cache-misses'' then ''cache-references''
      else if tname = ''branch-misses'' then ''branch-instructions''
      else take (length tname - length ''-misses'') tname @ ''s'')"

text \<open>The branch for the names that end in \<^verbatim>\<open>-misses\<close>: \<open>None\<close> when it does not return.\<close>

definition miss_rate_comment :: "bool \<Rightarrow> CounterSummary list \<Rightarrow> CounterSummary \<Rightarrow> string option" where
  "miss_rate_comment csv ss s =
     (if EndsWith (type_name s) ''-misses''
      then (case FindSummary ss (misses_other_name (type_name s)) (modifier s) of
              None \<Rightarrow> None
            | Some other \<Rightarrow>
                if IsMonitoredAtTheSameTime other s \<and> count other \<noteq> 0
                then (let miss_rate = ddiv (double_of_u64 (count s)) (double_of_u64 (count other))
                      in Some (printf_f 6 (dmul miss_rate 100) @ CHR ''%'' # sap_mid csv # ''miss rate''))
                else None)
      else None)"

text \<open>
  The last part of the function.  Here and below, \<open>None\<close> is a quotient that is not an
  ordinary finite number (see \<open>ddiv_opt\<close>).
\<close>

definition rate_comment :: "bool \<Rightarrow> CounterSummary \<Rightarrow> double \<Rightarrow> string option" where
  "rate_comment csv s duration_in_sec =
     do {
       t \<leftarrow> ddiv_opt duration_in_sec (scale s);
       rate \<leftarrow> ddiv_opt (double_of_u64 (count s)) t;
       if 1000000000 < rate
       then Some (printf_f 3 (ddiv rate 1000000000) @ sap_mid csv # ''G/sec'')
       else if 1000000 < rate
       then Some (printf_f 3 (ddiv rate 1000000) @ sap_mid csv # ''M/sec'')
       else if 1000 < rate
       then Some (printf_f 3 (ddiv rate 1000) @ sap_mid csv # ''K/sec'')
       else Some (printf_f 3 rate @ sap_mid csv # ''/sec'')
     }"

definition GetCommentForSummary ::
  "bool \<Rightarrow> CounterSummary list \<Rightarrow> CounterSummary \<Rightarrow> double \<Rightarrow> string option" where
  "GetCommentForSummary csv ss s duration_in_sec =
     (if type_name s = ''task-clock''
      then do {
        let run_sec = ddiv (double_of_u64 (count s)) 1000000000;
        t \<leftarrow> ddiv_opt duration_in_sec (scale s);
        used_cpus \<leftarrow> ddiv_opt run_sec t;
        Some (printf_f 6 used_cpus @ sap_mid csv # ''cpus used'')
      }
      else if type_name s = ''cpu-clock'' then Some []
      else if type_name s = ''cpu-cycles''
      then do {
        t \<leftarrow> ddiv_opt duration_in_sec (scale s);
        hz \<leftarrow> ddiv_opt (double_of_u64 (count s)) t;
        Some (printf_f 6 (ddiv hz 1000000000) @ sap_mid csv # ''GHz'')
      }
      else (case cpi_comment csv ss s of
              Some c \<Rightarrow> Some c
            | None \<Rightarrow>
                (case miss_rate_comment csv ss s of
                   Some c \<Rightarrow> Some c
                 | None \<Rightarrow> rate_comment csv s duration_in_sec)))"

subsection \<open>StatCommand::ParseOptions\<close>

text \<open>
  The helpers that \<^verbatim>\<open>ParseOptions\<close> calls and that are declared in other files
  (\<^verbatim>\<open>environment.h\<close>, \<^verbatim>\<open>event_selection_set.h\<close>, \<^verbatim>\<open>utils.h\<close>, libc, libbase) are
  parameters: a record of functions.  A helper that returns \<^verbatim>\<open>false\<close> returns \<open>None\<close>;
  one that writes through a pointer returns the new value.  The type \<open>'e\<close> is
  \<^verbatim>\<open>EventSelectionSet\<close>; \<^verbatim>\<open>std::set<pid_t>\<close> is the list of its elements.
\<close>

record 'e stat_env =
  IsRoot :: bool
  GetCpusFromString :: "string \<Rightarrow> int list"
  GetValidThreadsFromProcessString :: "string \<Rightarrow> int list \<Rightarrow> int list option"
  GetValidThreadsFromThreadString :: "string \<Rightarrow> int list \<Rightarrow> int list option"
  AddEventType :: "string \<Rightarrow> 'e \<Rightarrow> 'e option"
  AddEventGroup :: "string list \<Rightarrow> 'e \<Rightarrow> 'e option"
  Split :: "string \<Rightarrow> string \<Rightarrow> string list"
  strtod :: "string \<Rightarrow> double \<times> string \<times> bool"

text \<open>
  The members of \<^verbatim>\<open>StatCommand\<close> that \<^verbatim>\<open>ParseOptions\<close> writes (the member
  \<^verbatim>\<open>csv_\<close> is the field \<open>csv_format\<close>).
\<close>

record 'e StatCommand =
  verbose_mode :: bool
  system_wide_collection :: bool
  child_inherit :: bool
  monitored_threads :: "int list"
  cpus :: "int list"
  event_selection_set :: 'e
  output_filename :: string
  csv_format :: bool

datatype parse_error =
  MissingArgument | InvalidDuration | EventTypeError | ThreadsError | UnknownOption
  | SystemWideWithThreads | NeedsRoot | DurationWithCommand

text \<open>\<^verbatim>\<open>for (auto& event_type : event_types) if (!AddEventType(event_type)) return false;\<close>\<close>

fun add_event_types :: "'e stat_env \<Rightarrow> string list \<Rightarrow> 'e \<Rightarrow> 'e option" where
  "add_event_types env [] es = Some es"
| "add_event_types env (t # ts) es =
     (case AddEventType env t es of None \<Rightarrow> None | Some es' \<Rightarrow> add_event_types env ts es')"

text \<open>
  The option loop.  Its state is the command, \<^verbatim>\<open>tid_set\<close> and \<^verbatim>\<open>duration_in_sec\<close>;
  the list is \<^verbatim>\<open>args\<close> from index \<open>i\<close> on.  It returns the arguments that are left.

  Modelled from the spec: \<^verbatim>\<open>NextArgumentOrError\<close> (command.h) is missing from the
  sources; a missing required argument is reported and parsing fails, otherwise the
  index moves to the argument.
\<close>

fun ParseOptions_loop ::
  "'e stat_env \<Rightarrow> 'e StatCommand \<times> int list \<times> double \<Rightarrow> string list \<Rightarrow>
     parse_error + ('e StatCommand \<times> int list \<times> double \<times> string list)" where
  "ParseOptions_loop env (cmd, tid_set, duration_in_sec) [] =
     Inr (cmd, tid_set, duration_in_sec, [])"
| "ParseOptions_loop env (cmd, tid_set, duration_in_sec) (a # args) =
     (if 0 < length a \<and> a ! 0 = CHR ''-''
      then
        if a = ''-a''
        then ParseOptions_loop env (cmd\<lparr>system_wide_collection := True\<rparr>, tid_set, duration_in_sec) args
        else if a = ''--cpu''
        then (case args of
                [] \<Rightarrow> Inl MissingArgument
              | v # args' \<Rightarrow>
                  ParseOptions_loop env
                    (cmd\<lparr>cpus := GetCpusFromString env v\<rparr>, tid_set, duration_in_sec) args')
        else if a = ''--csv''
        then ParseOptions_loop env (cmd\<lparr>csv_format := True\<rparr>, tid_set, duration_in_sec) args
        else if a = ''--duration''
        then (case args of
                [] \<Rightarrow> Inl MissingArgument
              | v # args' \<Rightarrow>
                  (case strtod env v of
                     (d, endptr, erange) \<Rightarrow>
                       if d \<le> 0 \<or> endptr \<noteq> [] \<or> erange then Inl InvalidDuration
                       else ParseOptions_loop env (cmd, tid_set, d) args'))
        else if a = ''-e''
        then (case args of
                [] \<Rightarrow> Inl MissingArgument
              | v # args' \<Rightarrow>
                  (case add_event_types env (Split env v '','') (event_selection_set cmd) of
                     None \<Rightarrow> Inl EventTypeError
                   | Some es \<Rightarrow>
                       ParseOptions_loop env
                         (cmd\<lparr>event_selection_set := es\<rparr>, tid_set, duration_in_sec) args'))
        else if a = ''--group''
        then (case args of
                [] \<Rightarrow> Inl MissingArgument
              | v # args' \<Rightarrow>
                  (case AddEventGroup env (Split env v '','') (event_selection_set cmd) of
                     None \<Rightarrow> Inl EventTypeError
                   | Some es \<Rightarrow>
                       ParseOptions_loop env
                         (cmd\<lparr>event_selection_set := es\<rparr>, tid_set, duration_in_sec) args'))
        else if a = ''--no-inherit''
        then ParseOptions_loop env (cmd\<lparr>child_inherit := False\<rparr>, tid_set, duration_in_sec) args
        else if a = ''-o''
        then (case args of
                [] \<Rightarrow> Inl MissingArgument
              | v # args' \<Rightarrow>
                  ParseOptions_loop env (cmd\<lparr>output_filename := v\<rparr>, tid_set, duration_in_sec) args')
        else if a = ''-p''
        then (case args of
                [] \<Rightarrow> Inl MissingArgument
              | v # args' \<Rightarrow>
                  (case GetValidThreadsFromProcessString env v tid_set of
                     None \<Rightarrow> Inl ThreadsError
                   | Some tid_set' \<Rightarrow> ParseOptions_loop env (cmd, tid_set', duration_in_sec) args'))
        else if a = ''-t''
        then (case args of
                [] \<Rightarrow> Inl MissingArgument
              | v # args' \<Rightarrow>
                  (case GetValidThreadsFromThreadString env v tid_set of
                     None \<Rightarrow> Inl ThreadsError
                   | Some tid_set' \<Rightarrow> ParseOptions_loop env (cmd, tid_set', duration_in_sec) args'))
        else if a = ''--verbose''
        then ParseOptions_loop env (cmd\<lparr>verbose_mode := True\<rparr>, tid_set, duration_in_sec) args
        else Inl UnknownOption
      else Inr (cmd, tid_set, duration_in_sec, a # args))"

text \<open>
  What follows the loop.  First the check of the target: the thread ids of \<^verbatim>\<open>tid_set\<close>
  are appended to \<^verbatim>\<open>monitored_threads_\<close>, and system-wide collection is refused
  together with threads to monitor, and without root privilege.
\<close>

definition check_target ::
  "'e stat_env \<Rightarrow> 'e StatCommand \<Rightarrow> int list \<Rightarrow> parse_error + 'e StatCommand" where
  "check_target env cmd0 tid_set =
     (let cmd = cmd0\<lparr>monitored_threads := monitored_threads cmd0 @ tid_set\<rparr>
      in if system_wide_collection cmd \<and> monitored_threads cmd \<noteq> []
         then Inl SystemWideWithThreads
         else if system_wide_collection cmd \<and> \<not> IsRoot env
         then Inl NeedsRoot
         else Inr cmd)"

text \<open>Then \<^verbatim>\<open>non_option_args\<close>: the arguments that are left, or the sleep command.\<close>

definition collect_non_option_args :: "double \<Rightarrow> string list \<Rightarrow> parse_error + string list" where
  "collect_non_option_args duration_in_sec args =
     (if duration_in_sec \<noteq> 0
      then (if args \<noteq> [] then Inl DurationWithCommand
            else Inr [''sleep'', printf_f 6 duration_in_sec])
      else Inr args)"

text \<open>
  The result is the command and \<^verbatim>\<open>non_option_args\<close>, or the error that made the
  function return \<^verbatim>\<open>false\<close>.
\<close>

definition ParseOptions ::
  "'e stat_env \<Rightarrow> 'e StatCommand \<Rightarrow> string list \<Rightarrow> parse_error + ('e StatCommand \<times> string list)" where
  "ParseOptions env cmd args =
     (case ParseOptions_loop env (cmd, [], 0) args of
        Inl e \<Rightarrow> Inl e
      | Inr (cmd1, tid_set, duration_in_sec, rest) \<Rightarrow>
          (case check_target env cmd1 tid_set of
             Inl e \<Rightarrow> Inl e
           | Inr cmd2 \<Rightarrow>
               (case collect_non_option_args duration_in_sec rest of
                  Inl e \<Rightarrow> Inl e
                | Inr non_option_args \<Rightarrow> Inr (cmd2, non_option_args))))"

text \<open>The members as the constructor of \<^verbatim>\<open>StatCommand\<close> initialises them.\<close>

definition StatCommand_init :: "'e \<Rightarrow> 'e StatCommand" where
  "StatCommand_init es =
     \<lparr>verbose_mode = False, system_wide_collection = False, child_inherit = True,
      monitored_threads = [], cpus = [], event_selection_set = es, output_filename = [],
      csv_format = False\<rparr>"

text \<open>
  An environment for the examples below: every helper succeeds, \<^verbatim>\<open>-p\<close> and \<^verbatim>\<open>-t\<close>
  add the thread 1, every duration parses as one second.
\<close>

definition example_env :: "bool \<Rightarrow> unit stat_env" where
  "example_env is_root =
     \<lparr>IsRoot = is_root, GetCpusFromString = (\<lambda>s. [0]),
      GetValidThreadsFromProcessString = (\<lambda>s tids. Some (tids @ [1])),
      GetValidThreadsFromThreadString = (\<lambda>s tids. Some (tids @ [1])),
      AddEventType = (\<lambda>s es. Some es), AddEventGroup = (\<lambda>ts es. Some es),
      Split = (\<lambda>s d. [s]), strtod = (\<lambda>s. (1, [], False))\<rparr>"

subsection \<open>StatCommand::Run: waiting for the termination flag\<close>

text \<open>
  \<^verbatim>\<open>while (!signaled) { sleep(1); }\<close> and the handler \<^verbatim>\<open>signaled = true\<close>, as a
  step relation.  In stage \<open>Counting\<close> the control is in the loop; stage \<open>Reading\<close> is
  step 5 of \<^verbatim>\<open>Run\<close>, which reads and prints the counters.
\<close>

datatype stage = Counting | Reading

record window =
  stage :: stage
  signaled :: bool
  slept :: nat

inductive step :: "window \<Rightarrow> window \<Rightarrow> bool" where
  sleep: "stage w = Counting \<Longrightarrow> \<not> signaled w \<Longrightarrow> step w (w\<lparr>slept := slept w + 1\<rparr>)"
| leave: "stage w = Counting \<Longrightarrow> signaled w \<Longrightarrow> step w (w\<lparr>stage := Reading\<rparr>)"
| signal_handler: "step w (w\<lparr>signaled := True\<rparr>)"

code_pred step .

text \<open>A step of a run in which no signal arrives: the flag is unset after it.\<close>

definition quiet_step :: "window \<Rightarrow> window \<Rightarrow> bool" where
  "quiet_step w w' \<longleftrightarrow> step w w' \<and> \<not> signaled w'"

section \<open>Properties\<close>

declare decimal.simps [simp del]
declare comma_loop.simps [simp del]
declare group_thousands.simps [simp del]
declare AutoGenerateSummaries_loop.simps [simp del]

subsection \<open>Rounding\<close>

lemma round_half_even_of_int: "round_half_even (of_int n) = n"
  by (simp add: round_half_even_def)

lemma round_half_even_bounds:
  "\<lfloor>x\<rfloor> \<le> round_half_even x" "round_half_even x \<le> \<lfloor>x\<rfloor> + 1"
  by (simp_all add: round_half_even_def Let_def)

lemma round_half_even_mono:
  assumes "x \<le> y"
  shows "round_half_even x \<le> round_half_even y"
proof (cases "\<lfloor>x\<rfloor> = \<lfloor>y\<rfloor>")
  case True
  with assms have "x - of_int \<lfloor>x\<rfloor> \<le> y - of_int \<lfloor>y\<rfloor>"
    by simp
  with True show ?thesis
    by (auto simp add: round_half_even_def Let_def)
next
  case False
  with assms have "\<lfloor>x\<rfloor> + 1 \<le> \<lfloor>y\<rfloor>"
    using floor_mono [of x y] by linarith
  with round_half_even_bounds(2) [of x] round_half_even_bounds(1) [of y]
  show ?thesis by linarith
qed

lemma round_half_even_above_half:
  assumes "of_int n + 1 / 2 < x"
  shows "n + 1 \<le> round_half_even x"
proof (cases "n + 1 \<le> \<lfloor>x\<rfloor>")
  case True
  with round_half_even_bounds(1) [of x] show ?thesis by linarith
next
  case False
  moreover from assms have "n \<le> \<lfloor>x\<rfloor>"
    by (simp add: le_floor_iff)
  ultimately have "\<lfloor>x\<rfloor> = n" by linarith
  with assms show ?thesis
    by (simp add: round_half_even_def Let_def)
qed

lemma binade_bounds:
  assumes "0 < x"
  shows "2 powi binade x \<le> x" and "x < 2 powi (binade x + 1)"
proof -
  have "2 powi binade x \<le> x \<and> x < 2 powi (binade x + 1)"
  proof (cases "1 \<le> x")
    case True
    then have n: "0 < \<lfloor>x\<rfloor>" by linarith
    define k where "k = nat (bitlen \<lfloor>x\<rfloor> - 1)"
    from n have bl: "1 \<le> bitlen \<lfloor>x\<rfloor>"
      using bitlen_eq_zero_iff [of "\<lfloor>x\<rfloor>"] bitlen_nonneg [of "\<lfloor>x\<rfloor>"] by linarith
    then have kb: "bitlen \<lfloor>x\<rfloor> - 1 = int k" "nat (bitlen \<lfloor>x\<rfloor>) = Suc k"
      by (simp_all add: k_def)
    from bitlen_bounds [OF n] kb have i: "2 ^ k \<le> \<lfloor>x\<rfloor>" "\<lfloor>x\<rfloor> + 1 \<le> 2 ^ Suc k"
      by simp_all
    from i(1) have "of_int (2 ^ k) \<le> (of_int \<lfloor>x\<rfloor> :: rat)"
      by (simp only: of_int_le_iff)
    then have a: "(2::rat) ^ k \<le> of_int \<lfloor>x\<rfloor>"
      by simp
    from i(2) have "(of_int (\<lfloor>x\<rfloor> + 1) :: rat) \<le> of_int (2 ^ Suc k)"
      by (simp only: of_int_le_iff)
    then have b: "(of_int \<lfloor>x\<rfloor> :: rat) + 1 \<le> 2 ^ Suc k"
      by simp
    from a b have "(2::rat) ^ k \<le> x" "x < 2 ^ Suc k"
      by linarith+
    moreover have "binade x = int k" "binade x + 1 = int (Suc k)"
      using True kb by (simp_all add: binade_def)
    ultimately show ?thesis
      by (simp only: power_int_of_nat) 
  next
    case False
    define y where "y = 1 / x"
    from False assms have y: "1 < y"
      by (simp add: y_def)
    then have n: "0 < \<lceil>y\<rceil> - 1" by linarith
    define k where "k = nat (bitlen (\<lceil>y\<rceil> - 1) - 1)"
    from n have bl: "1 \<le> bitlen (\<lceil>y\<rceil> - 1)"
      using bitlen_eq_zero_iff [of "\<lceil>y\<rceil> - 1"] bitlen_nonneg [of "\<lceil>y\<rceil> - 1"]
      by linarith
    then have kb: "bitlen (\<lceil>y\<rceil> - 1) = int (Suc k)" "nat (bitlen (\<lceil>y\<rceil> - 1)) = Suc k"
      by (simp_all add: k_def)
    from bitlen_bounds [OF n] kb have i: "2 ^ k \<le> \<lceil>y\<rceil> - 1" "\<lceil>y\<rceil> \<le> 2 ^ Suc k"
      by simp_all
    from i(1) have "of_int (2 ^ k) \<le> (of_int (\<lceil>y\<rceil> - 1) :: rat)"
      by (simp only: of_int_le_iff)
    then have a: "(2::rat) ^ k \<le> of_int \<lceil>y\<rceil> - 1"
      by simp
    from i(2) have "(of_int \<lceil>y\<rceil> :: rat) \<le> of_int (2 ^ Suc k)"
      by (simp only: of_int_le_iff)
    then have b: "(of_int \<lceil>y\<rceil> :: rat) \<le> 2 ^ Suc k"
      by simp
    from a b have "(2::rat) ^ k < y" "y \<le> 2 ^ Suc k"
      by linarith+
    with assms have "1 / 2 ^ Suc k \<le> x" "x < 1 / 2 ^ k"
      by (simp_all add: y_def field_simps)
    moreover have "binade x = - int (Suc k)" "binade x + 1 = - int k"
      using False kb by (simp_all add: binade_def y_def)
    ultimately show ?thesis
      by (simp only: power_int_minus_divide power_int_of_nat)
  qed
  then show "2 powi binade x \<le> x" and "x < 2 powi (binade x + 1)"
    by simp_all
qed

lemma two_powi_less_iff: "(2::rat) powi a < 2 powi b \<longleftrightarrow> a < b"
  using power_int_strict_increasing [of a b "2::rat"] power_int_strict_increasing [of b a "2::rat"]
  by (cases a b rule: linorder_cases) auto

lemma two_powi_le_iff: "(2::rat) powi a \<le> 2 powi b \<longleftrightarrow> a \<le> b"
  using two_powi_less_iff [of b a] by (simp add: not_less [symmetric])

lemma binade_unique:
  assumes "2 powi k \<le> x" "x < 2 powi (k + 1)"
  shows "binade x = k"
proof -
  from assms(1) have x: "0 < x"
    using zero_less_power_int [of "2::rat" k] by linarith
  from binade_bounds [OF x] assms
  have "(2::rat) powi k < 2 powi (binade x + 1)" "(2::rat) powi binade x < 2 powi (k + 1)"
    by linarith+
  then show ?thesis
    by (simp add: two_powi_less_iff)
qed


lemma round_double_pos:
  assumes "0 < x"
  shows "round_double x =
    of_int (round_half_even (x / 2 powi (binade x - 52))) * 2 powi (binade x - 52)"
  using assms by (simp add: round_double_def Let_def)

lemma two_powi_split: "(2::rat) powi b = 2 ^ 52 * 2 powi (b - 52)"
  using power_int_add [of "2::rat" 52 "b - 52"] by simp

lemma significand_bounds:
  assumes "0 < x"
  shows "2 ^ 52 \<le> x / 2 powi (binade x - 52)" and "x / 2 powi (binade x - 52) < 2 ^ 53"
proof -
  have p: "(0::rat) < 2 powi (binade x - 52)"
    by simp
  from binade_bounds(1) [OF assms] two_powi_split [of "binade x"]
  have "2 ^ 52 * 2 powi (binade x - 52) \<le> x"
    by simp
  with p show "2 ^ 52 \<le> x / 2 powi (binade x - 52)"
    by (simp add: pos_le_divide_eq)
  from binade_bounds(2) [OF assms] two_powi_split [of "binade x + 1"]
  have "x < 2 ^ 53 * 2 powi (binade x - 52)"
    using power_int_add [of "2::rat" 1 "binade x - 52"] by (simp add: algebra_simps)
  with p show "x / 2 powi (binade x - 52) < 2 ^ 53"
    by (simp add: pos_divide_less_eq)
qed

lemma round_double_bounds:
  assumes "0 < x"
  shows "2 powi binade x \<le> round_double x" and "round_double x \<le> 2 powi (binade x + 1)"
proof -
  let ?q = "x / 2 powi (binade x - 52)"
  have p: "(0::rat) < 2 powi (binade x - 52)"
    by simp
  from significand_bounds [OF assms] have "of_int (2 ^ 52) \<le> ?q" "?q \<le> of_int (2 ^ 53)"
    by simp_all
  then have "round_half_even (of_int (2 ^ 52)) \<le> round_half_even ?q"
    "round_half_even ?q \<le> round_half_even (of_int (2 ^ 53))"
    by (simp_all only: round_half_even_mono)
  then have "2 ^ 52 \<le> round_half_even ?q" "round_half_even ?q \<le> 2 ^ 53"
    by (simp_all only: round_half_even_of_int)
  then have "(of_int (2 ^ 52) :: rat) \<le> of_int (round_half_even ?q)"
    "(of_int (round_half_even ?q) :: rat) \<le> of_int (2 ^ 53)"
    by (simp_all only: of_int_le_iff)
  then have "(2 ^ 52 :: rat) \<le> of_int (round_half_even ?q)"
    "(of_int (round_half_even ?q) :: rat) \<le> 2 ^ 53"
    by simp_all
  with p have "2 ^ 52 * (2::rat) powi (binade x - 52) \<le> of_int (round_half_even ?q) * 2 powi (binade x - 52)"
    "of_int (round_half_even ?q) * (2::rat) powi (binade x - 52) \<le> 2 ^ 53 * 2 powi (binade x - 52)"
    by (simp_all only: mult_le_cancel_right_pos)
  moreover have "(2::rat) powi (binade x + 1) = 2 ^ 53 * 2 powi (binade x - 52)"
    using power_int_add [of "2::rat" 53 "binade x - 52"] by (simp add: algebra_simps)
  ultimately show "2 powi binade x \<le> round_double x" and "round_double x \<le> 2 powi (binade x + 1)"
    using two_powi_split [of "binade x"] by (simp_all only: round_double_pos [OF assms])
qed

lemma round_double_positive:
  assumes "0 < x"
  shows "0 < round_double x"
  using round_double_bounds(1) [OF assms] zero_less_power_int [of "2::rat" "binade x"]
  by linarith

lemma round_double_mono_pos:
  assumes "0 < x" "x \<le> y"
  shows "round_double x \<le> round_double y"
proof -
  from assms have y: "0 < y" by simp
  from binade_bounds(1) [OF assms(1)] binade_bounds(2) [OF y] assms(2)
  have "(2::rat) powi binade x < 2 powi (binade y + 1)"
    by linarith
  then have le: "binade x \<le> binade y"
    by (simp add: two_powi_less_iff)
  show ?thesis
  proof (cases "binade x = binade y")
    case True
    let ?s = "(2::rat) powi (binade y - 52)"
    have p: "0 < ?s" by simp
    with assms(2) have "x / ?s \<le> y / ?s"
      by (simp add: divide_right_mono)
    then have "round_half_even (x / ?s) \<le> round_half_even (y / ?s)"
      by (rule round_half_even_mono)
    then have "(of_int (round_half_even (x / ?s)) :: rat) \<le> of_int (round_half_even (y / ?s))"
      by (simp only: of_int_le_iff)
    with p have "of_int (round_half_even (x / ?s)) * ?s \<le> of_int (round_half_even (y / ?s)) * ?s"
      by (simp only: mult_le_cancel_right_pos)
    then show ?thesis
      by (simp only: round_double_pos [OF assms(1)] round_double_pos [OF y] True)
  next
    case False
    with le have "binade x + 1 \<le> binade y" by simp
    then have "(2::rat) powi (binade x + 1) \<le> 2 powi binade y"
      by (simp only: two_powi_le_iff)
    with round_double_bounds(2) [OF assms(1)] round_double_bounds(1) [OF y]
    show ?thesis by linarith
  qed
qed

lemma round_double_one: "round_double 1 = 1"
  by code_simp

lemma round_double_ge_one:
  assumes "1 \<le> x"
  shows "1 \<le> round_double x"
  using round_double_mono_pos [of 1 x] assms by (simp add: round_double_one)

lemma round_double_nat_exact:
  assumes "n < 2 ^ 53"
  shows "round_double (of_nat n) = of_nat n"
proof (cases "n = 0")
  case True
  then show ?thesis by (simp add: round_double_def)
next
  case False
  let ?x = "of_nat n :: rat"
  from False have x: "0 < ?x" by simp
  from assms have "?x < 2 ^ 53"
    using of_nat_less_iff [of n "2 ^ 53", where ?'a = rat] by simp
  with binade_bounds(1) [OF x] have "(2::rat) powi binade ?x < 2 powi 53"
    by simp
  then have "binade ?x - 52 \<le> 0"
    by (simp only: two_powi_less_iff)
  then obtain m where m: "binade ?x - 52 = - int m"
    by (metis add.inverse_inverse nonpos_int_cases)
  have "?x / 2 powi (- int m) = of_int (int n * 2 ^ m)"
    by (simp add: power_int_minus divide_inverse)
  then have r: "round_half_even (?x / 2 powi (- int m)) = int n * 2 ^ m"
    by (simp only: round_half_even_of_int)
  show ?thesis
    by (simp only: round_double_pos [OF x] m r) (simp add: power_int_minus)
qed



lemma round_double_of_nat_mono:
  assumes "m \<le> n"
  shows "round_double (of_nat m) \<le> round_double (of_nat n)"
proof (cases "m = 0")
  case True
  show ?thesis
  proof (cases "n = 0")
    case True
    with \<open>m = 0\<close> show ?thesis by simp
  next
    case False
    then have "0 < round_double (of_nat n)"
      by (intro round_double_positive) simp
    with \<open>m = 0\<close> show ?thesis
      by (simp add: round_double_def)
  qed
next
  case False
  with assms show ?thesis
    by (intro round_double_mono_pos) simp_all
qed

lemma double_of_u64_positive:
  assumes "w \<noteq> 0"
  shows "0 < double_of_u64 w"
proof -
  from assms have "0 < unat w"
    by (simp add: unat_gt_0)
  then have "(0::rat) < of_nat (unat w)"
    by (simp only: of_nat_0_less_iff)
  then show ?thesis
    unfolding double_of_u64_def by (rule round_double_positive)
qed

lemma double_of_u64_mono:
  assumes "a \<le> b"
  shows "double_of_u64 a \<le> double_of_u64 b"
proof -
  from assms have "unat a \<le> unat b"
    by (simp add: word_le_nat_alt)
  then show ?thesis
    unfolding double_of_u64_def by (rule round_double_of_nat_mono)
qed

lemma double_of_u64_exact:
  assumes "unat w < 2 ^ 53"
  shows "double_of_u64 w = of_nat (unat w)"
  unfolding double_of_u64_def using assms by (rule round_double_nat_exact)

subsection \<open>The scale of an aggregated summary\<close>

lemma compute_scale_ge_one: "1 \<le> compute_scale e r"
proof (cases "r < e \<and> r \<noteq> 0")
  case True
  then have "0 < double_of_u64 r" "double_of_u64 r \<le> double_of_u64 e"
    by (simp_all add: double_of_u64_positive double_of_u64_mono less_imp_le)
  then have "1 \<le> double_of_u64 e / double_of_u64 r"
    by simp
  then have "1 \<le> round_double (double_of_u64 e / double_of_u64 r)"
    by (rule round_double_ge_one)
  with True show ?thesis
    by (simp add: compute_scale_def ddiv_def)
next
  case False
  then show ?thesis
    by (auto simp add: compute_scale_def)
qed

lemma round_double_gt_one:
  assumes "1 + 1 / 2 ^ 53 < x"
  shows "1 < round_double x"
proof (cases "2 \<le> x")
  case True
  then have "round_double 2 \<le> round_double x"
    by (intro round_double_mono_pos) simp_all
  moreover have "round_double 2 = 2"
    by code_simp
  ultimately show ?thesis by simp
next
  case False
  with assms have b: "binade x = 0"
    by (intro binade_unique) simp_all
  from assms have x: "0 < x"
    by (simp add: field_simps) 
  from assms have "of_int (2 ^ 52) + 1 / 2 < x / 2 powi (- 52)"
    by (simp add: power_int_minus field_simps)
  then have "2 ^ 52 + 1 \<le> round_half_even (x / 2 powi (- 52))"
    by (rule round_half_even_above_half)
  then have "(of_int (2 ^ 52 + 1) :: rat) \<le> of_int (round_half_even (x / 2 powi (- 52)))"
    by (simp only: of_int_le_iff)
  then have "(2 ^ 52 + 1) * 2 powi (- 52) \<le> of_int (round_half_even (x / 2 powi (- 52))) * (2::rat) powi (- 52)"
    by simp
  then show ?thesis
    by (simp add: round_double_pos [OF x] b power_int_minus field_simps)
qed

lemma compute_scale_gt_one:
  assumes "r < e" "r \<noteq> 0" "unat e < 2 ^ 53"
  shows "1 < compute_scale e r"
proof -
  define m n where "m = unat e" and "n = unat r"
  from assms(1) have lt: "n < m"
    by (simp add: word_less_nat_alt m_def n_def)
  from assms(3) have m53: "m < 2 ^ 53"
    by (simp add: m_def)
  with lt have n53: "n < 2 ^ 53"
    by simp
  from assms(2) have n0: "0 < n"
    by (simp add: unat_gt_0 n_def)
  have de: "double_of_u64 e = of_nat m" and dr: "double_of_u64 r = of_nat n"
    using m53 n53 unfolding m_def n_def by (simp_all only: double_of_u64_exact)
  let ?e = "of_nat m :: rat" and ?r = "of_nat n :: rat"
  from lt have "Suc n \<le> m"
    by simp
  then have "(of_nat (Suc n) :: rat) \<le> of_nat m"
    by (simp only: of_nat_le_iff)
  then have "?r + 1 \<le> ?e"
    by (simp only: of_nat_Suc)
  moreover from n0 have rp: "0 < ?r" by simp
  ultimately have "(?r + 1) / ?r \<le> ?e / ?r"
    by (simp only: divide_right_mono less_imp_le)
  with rp have "1 + 1 / ?r \<le> ?e / ?r"
    by (simp add: add_divide_distrib)
  moreover from n53 have "?r < 2 ^ 53"
    using of_nat_less_iff [of n "2 ^ 53", where ?'a = rat] by simp
  with rp have "1 / 2 ^ 53 < 1 / ?r"
    by (simp add: field_simps)
  ultimately have "1 + 1 / 2 ^ 53 < ?e / ?r"
    by linarith
  then have "1 < round_double (?e / ?r)"
    by (rule round_double_gt_one)
  with assms show ?thesis
    by (simp add: compute_scale_def ddiv_def de dr)
qed

subsection \<open>Aggregation\<close>

lemma sum_counters_filter:
  "sum_counters cs acc = sum_counters (filter (\<lambda>c. time_running (counter c) \<noteq> 0) cs) acc"
  by (induction cs acc rule: sum_counters.induct) simp_all

lemma sum_counters_sums:
  "sum_counters cs (v, e, r) =
     (v + sum_list (map (\<lambda>c. val (counter c)) (filter (\<lambda>c. time_running (counter c) \<noteq> 0) cs)),
      e + sum_list (map (\<lambda>c. time_enabled (counter c)) (filter (\<lambda>c. time_running (counter c) \<noteq> 0) cs)),
      r + sum_list (map (\<lambda>c. time_running (counter c)) (filter (\<lambda>c. time_running (counter c) \<noteq> 0) cs)))"
  by (induction cs "(v, e, r)" arbitrary: v e r rule: sum_counters.induct) (simp_all add: add.assoc)


subsection \<open>Evaluation of the formatting functions\<close>

lemma decimal_small: "n < 10 \<Longrightarrow> decimal n = [digit_char n]"
  by (simp add: decimal.simps)

lemma decimal_large: "10 \<le> n \<Longrightarrow> decimal n = decimal (n div 10) @ [digit_char (n mod 10)]"
  by (subst decimal.simps) simp

lemma replicate_numeral_eval: "replicate (numeral k) c = c # replicate (pred_numeral k) c"
  by (simp add: numeral_eq_Suc)

lemmas decimal_eval = decimal_small decimal_large digit_char_def

lemmas printf_eval = printf_f_def Let_def round_half_even_def zero_pad_def decimal_eval
  replicate_numeral_eval

lemma round_double_two: "round_double 2 = 2"
  by code_simp

subsection \<open>The digit string and the grouping loop\<close>

lemma decimal_not_Nil: "decimal n \<noteq> []"
  by (subst decimal.simps) simp

lemma digit_char_value:
  assumes "d < 10"
  shows "of_char (digit_char d) = 48 + d"
proof -
  from assms have "d \<in> {0, 1, 2, 3, 4, 5, 6, 7, 8, 9}"
    by auto
  then show ?thesis
    by (auto simp add: digit_char_def)
qed

lemma decimal_value:
  "foldl (\<lambda>a c. 10 * a + (of_char c - 48)) 0 (decimal n) = n"
proof (induction n rule: decimal.induct)
  case (1 n)
  show ?case
  proof (cases "n < 10")
    case True
    then show ?thesis
      by (subst decimal.simps) (simp add: digit_char_value)
  next
    case False
    with 1 show ?thesis
      by (subst decimal.simps) (simp add: digit_char_value)
  qed
qed

lemma group_thousands_digits:
  "filter (\<lambda>c. c \<noteq> CHR '','') (group_thousands s) = filter (\<lambda>c. c \<noteq> CHR '','') s"
proof (induction s rule: group_thousands.induct)
  case (1 s)
  show ?case
  proof (cases "length s \<le> 3")
    case True
    then show ?thesis
      by (subst group_thousands.simps) simp
  next
    case False
    have "filter (\<lambda>c. c \<noteq> CHR '','') (take (length s - 3) s @ drop (length s - 3) s)
      = filter (\<lambda>c. c \<noteq> CHR '','') s"
      by (simp only: append_take_drop_id)
    then have "filter (\<lambda>c. c \<noteq> CHR '','') (take (length s - 3) s) @
      filter (\<lambda>c. c \<noteq> CHR '','') (drop (length s - 3) s) = filter (\<lambda>c. c \<noteq> CHR '','') s"
      by (simp only: filter_append)
    with False 1 show ?thesis
      by (subst group_thousands.simps) simp
  qed
qed

lemma decimal_no_comma: "filter (\<lambda>c. c \<noteq> CHR '','') (decimal n) = decimal n"
proof (induction n rule: decimal.induct)
  case (1 n)
  have d: "digit_char d \<noteq> CHR '',''" if "d < 10" for d
  proof -
    from that have "d \<in> {0, 1, 2, 3, 4, 5, 6, 7, 8, 9}"
      by auto
    then show ?thesis
      by (auto simp add: digit_char_def)
  qed
  show ?case
  proof (cases "n < 10")
    case True
    then show ?thesis
      by (subst (1 2) decimal.simps) (simp add: d)
  next
    case False
    with 1 show ?thesis
      by (subst (1 2) decimal.simps) (simp add: d)
  qed
qed

lemma comma_loop_append:
  "i \<le> length p \<Longrightarrow> comma_loop i j (p @ q) = comma_loop i j p @ q"
proof (induction i j p rule: comma_loop.induct)
  case (1 i j s)
  show ?case
  proof (cases "0 < i")
    case False
    then show ?thesis
      by (simp add: comma_loop.simps)
  next
    case True
    show ?thesis
    proof (cases "j = 3")
      case True
      with \<open>0 < i\<close> 1 show ?thesis
        by (subst (1 2) comma_loop.simps) simp
    next
      case False
      with \<open>0 < i\<close> 1 show ?thesis
        by (subst (1 2) comma_loop.simps) simp
    qed
  qed
qed

lemma comma_loop_short:
  "i + j \<le> 3 \<Longrightarrow> comma_loop i j s = s"
proof (induction i j s rule: comma_loop.induct)
  case (1 i j s)
  then show ?case
    by (subst comma_loop.simps) auto
qed

lemma comma_loop_Suc:
  "comma_loop (Suc i) j s =
     (if j = 3 then comma_loop i 1 (take (Suc i) s @ CHR '','' # drop (Suc i) s)
      else comma_loop i (Suc j) s)"
  by (subst comma_loop.simps) simp

lemma comma_loop_group_thousands:
  "comma_loop (length s - 1) 1 s = group_thousands s"
proof (induction s rule: group_thousands.induct)
  case (1 s)
  show ?case
  proof (cases "length s \<le> 3")
    case True
    then have "comma_loop (length s - 1) 1 s = s"
      by (intro comma_loop_short) simp
    with True show ?thesis
      by (simp add: group_thousands.simps)
  next
    case False
    define n where "n = length s - 4"
    from False have len: "length s = Suc (Suc (Suc (Suc n)))"
      by (simp add: n_def)
    let ?p = "take (Suc n) s" and ?q = "CHR '','' # drop (Suc n) s"
    have p: "length ?p - 1 = n" "take (length s - 3) s = ?p" "drop (length s - 3) s = drop (Suc n) s"
      by (simp_all add: len)
    have "comma_loop (length s - 1) 1 s = comma_loop n 1 (?p @ ?q)"
      by (simp add: len comma_loop_Suc)
    also have "\<dots> = comma_loop n 1 ?p @ ?q"
      by (rule comma_loop_append) (simp add: len)
    also have "comma_loop n 1 ?p = group_thousands ?p"
      using 1 [OF False] by (simp only: p)
    also have "group_thousands ?p @ ?q = group_thousands s"
      using False by (subst (2) group_thousands.simps) (simp only: p if_False)
    finally show ?thesis .
  qed
qed

subsection \<open>Strings and comments\<close>

lemma EndsWith_append: "EndsWith (p @ suffix) suffix"
  by (simp add: EndsWith_def)

lemma EndsWith_iff: "EndsWith s suffix \<longleftrightarrow> (\<exists>p. s = p @ suffix)"
proof
  assume "EndsWith s suffix"
  then have "s = take (length s - length suffix) s @ suffix"
    using append_take_drop_id [of "length s - length suffix" s] by (simp add: EndsWith_def)
  then show "\<exists>p. s = p @ suffix" ..
next
  assume "\<exists>p. s = p @ suffix"
  then show "EndsWith s suffix"
    by (auto simp add: EndsWith_def)
qed

lemma misses_other_name_append:
  "misses_other_name (p @ ''-misses'') =
     (if p = ''cache'' then ''cache-references''
      else if p = ''branch'' then ''branch-instructions''
      else p @ ''s'')"
  by (auto simp add: misses_other_name_def)

lemma ddiv_opt_positive:
  assumes "0 < b"
  shows "ddiv_opt a b = Some (ddiv a b)"
  using assms by (simp add: ddiv_opt_def)

lemma ddiv_positive:
  assumes "0 < a" "0 < b"
  shows "0 < ddiv a b"
  unfolding ddiv_def using assms by (intro round_double_positive) simp

lemma miss_rate_value: "dmul (ddiv 50 1000) 100 = 5"
  unfolding dmul_def ddiv_def by code_simp

lemma ddiv_one_one: "ddiv 1 1 = 1"
  unfolding ddiv_def by code_simp

lemma ddiv_five: "ddiv 5000000 1 = 5000000" "ddiv 5000000 1000000 = 5"
  unfolding ddiv_def by code_simp+

lemma ddiv_thousand: "ddiv 1000000000 1 = 1000000000" "ddiv 1000000000 1000000 = 1000"
  unfolding ddiv_def by code_simp+

subsection \<open>The loop of AutoGenerateSummaries\<close>

lemma FindSummary_None_iff:
  "FindSummary ss tname m = None \<longleftrightarrow>
     (\<forall>x \<in> set ss. \<not> (type_name x = tname \<and> modifier x = m))"
  by (induction ss) auto

lemma FindSummary_append:
  "FindSummary (xs @ ys) tname m =
     (case FindSummary xs tname m of Some x \<Rightarrow> Some x | None \<Rightarrow> FindSummary ys tname m)"
  by (induction xs) auto

lemma FindSummary_Some_index:
  assumes "FindSummary ss tname m = Some s"
  shows "\<exists>k < length ss. ss ! k = s \<and> type_name s = tname \<and> modifier s = m \<and>
    (\<forall>j < k. \<not> (type_name (ss ! j) = tname \<and> modifier (ss ! j) = m))"
  using assms
proof (induction ss)
  case Nil
  then show ?case by simp
next
  case (Cons a ss)
  show ?case
  proof (cases "type_name a = tname \<and> modifier a = m")
    case True
    with Cons.prems have "a = s" by simp
    with True have "(a # ss) ! 0 = s \<and> type_name s = tname \<and> modifier s = m \<and>
      (\<forall>j < 0. \<not> (type_name ((a # ss) ! j) = tname \<and> modifier ((a # ss) ! j) = m))"
      by simp
    then show ?thesis by blast
  next
    case False
    with Cons.prems have "FindSummary ss tname m = Some s" by auto
    from Cons.IH [OF this] obtain k where k: "k < length ss" "ss ! k = s"
      "type_name s = tname" "modifier s = m"
      "\<forall>j < k. \<not> (type_name (ss ! j) = tname \<and> modifier (ss ! j) = m)"
      by blast
    have "\<forall>j < Suc k. \<not> (type_name ((a # ss) ! j) = tname \<and> modifier ((a # ss) ! j) = m)"
    proof (intro allI impI)
      fix j assume "j < Suc k"
      then show "\<not> (type_name ((a # ss) ! j) = tname \<and> modifier ((a # ss) ! j) = m)"
        using False k(5) by (cases j) auto
    qed
    with k have "Suc k < length (a # ss) \<and> (a # ss) ! Suc k = s \<and> type_name s = tname \<and>
      modifier s = m \<and>
      (\<forall>j < Suc k. \<not> (type_name ((a # ss) ! j) = tname \<and> modifier ((a # ss) ! j) = m))"
      by simp
    then show ?thesis by blast
  qed
qed

lemma FindSummary_distinct:
  assumes "distinct (map (\<lambda>x. (type_name x, modifier x)) ss)" and "s \<in> set ss"
  shows "FindSummary ss (type_name s) (modifier s) = Some s"
  using assms by (induction ss) (auto simp add: image_iff)

text \<open>Summaries without modifier are never found for the modifier \<^verbatim>\<open>k\<close>.\<close>

lemma FindSummary_append_other:
  assumes "\<forall>g \<in> set gen. modifier g \<noteq> m"
  shows "FindSummary (ss @ gen) tname m = FindSummary ss tname m"
proof -
  from assms have "FindSummary gen tname m = None"
    by (simp add: FindSummary_None_iff)
  then show ?thesis
    by (simp add: FindSummary_append split: option.split)
qed

lemma generate_for_cases:
  "generate_for csv ss s = ss \<or>
   (modifier s = ''u'' \<and>
    (\<exists>other. FindSummary ss (type_name s) ''k'' = Some other \<and>
       IsMonitoredAtTheSameTime other s \<and>
       FindSummary ss (type_name s) [] = None \<and>
       generate_for csv ss s =
         ss @ [new_CounterSummary (type_name s) [] (group_id s) (count s + count other)
                 (scale s) True csv]))"
  by (simp add: generate_for_def AddSummary_def split: option.split)

lemma generate_for_found:
  assumes "FindSummary ss (type_name s) [] \<noteq> None"
  shows "generate_for csv ss s = ss"
  using assms by (auto simp add: generate_for_def split: option.split)

lemma generate_for_not_user:
  assumes "modifier s \<noteq> ''u''"
  shows "generate_for csv ss s = ss"
  using assms by (simp add: generate_for_def)

lemma generate_for_append_stable:
  assumes "modifier g = []" and "generate_for csv ss x = ss"
  shows "generate_for csv (ss @ [g]) x = ss @ [g]"
proof (cases "FindSummary ss (type_name x) [] = None")
  case False
  then have "FindSummary (ss @ [g]) (type_name x) [] \<noteq> None"
    by (auto simp add: FindSummary_append split: option.split)
  then show ?thesis
    by (rule generate_for_found)
next
  case True
  from assms(1) have k: "FindSummary (ss @ [g]) (type_name x) ''k'' = FindSummary ss (type_name x) ''k''"
    by (intro FindSummary_append_other) simp
  from assms(2) True show ?thesis
    unfolding generate_for_def k AddSummary_def
    by (auto split: option.splits if_splits)
qed

lemma loop_stable:
  assumes "\<forall>j < length ss. generate_for csv ss (ss ! j) = ss"
  shows "AutoGenerateSummaries_loop csv i ss = ss"
  using assms
proof (induction csv i ss rule: AutoGenerateSummaries_loop.induct)
  case (1 csv i ss)
  show ?case
  proof (cases "i < length ss")
    case True
    with "1.prems" have g: "generate_for csv ss (ss ! i) = ss"
      by simp
    with "1.IH" [OF True] "1.prems" have "AutoGenerateSummaries_loop csv (i + 1) ss = ss"
      by simp
    with True g show ?thesis
      by (subst AutoGenerateSummaries_loop.simps) simp
  next
    case False
    then show ?thesis
      by (subst AutoGenerateSummaries_loop.simps) simp
  qed
qed

lemma loop_makes_stable:
  assumes "\<forall>j < i. j < length ss \<longrightarrow> generate_for csv ss (ss ! j) = ss"
  shows "\<forall>j < length (AutoGenerateSummaries_loop csv i ss).
    generate_for csv (AutoGenerateSummaries_loop csv i ss)
      (AutoGenerateSummaries_loop csv i ss ! j) = AutoGenerateSummaries_loop csv i ss"
  using assms
proof (induction csv i ss rule: AutoGenerateSummaries_loop.induct)
  case (1 csv i ss)
  show ?case
  proof (cases "i < length ss")
    case False
    then have "AutoGenerateSummaries_loop csv i ss = ss"
      by (subst AutoGenerateSummaries_loop.simps) simp
    with False "1.prems" show ?thesis
      by simp
  next
    case True
    let ?ss' = "generate_for csv ss (ss ! i)"
    have inv: "\<forall>j < i + 1. j < length ?ss' \<longrightarrow> generate_for csv ?ss' (?ss' ! j) = ?ss'"
    proof (intro allI impI)
      fix j assume j: "j < i + 1" "j < length ?ss'"
      from generate_for_cases [of csv ss "ss ! i"]
      show "generate_for csv ?ss' (?ss' ! j) = ?ss'"
      proof
        assume same: "?ss' = ss"
        with j "1.prems" show ?thesis
          by (cases "j = i") simp_all
      next
        assume "modifier (ss ! i) = ''u'' \<and>
          (\<exists>other. FindSummary ss (type_name (ss ! i)) ''k'' = Some other \<and>
             IsMonitoredAtTheSameTime other (ss ! i) \<and>
             FindSummary ss (type_name (ss ! i)) [] = None \<and>
             ?ss' = ss @ [new_CounterSummary (type_name (ss ! i)) [] (group_id (ss ! i))
                 (count (ss ! i) + count other) (scale (ss ! i)) True csv])"
        then obtain g where g: "?ss' = ss @ [g]" "modifier g = []"
          "type_name g = type_name (ss ! i)"
          by (auto simp add: new_CounterSummary_def)
        from j True have nth: "(ss @ [g]) ! j = ss ! j"
          by (simp add: nth_append)
        show ?thesis
        proof (cases "j = i")
          case True
          from g(2,3) have "FindSummary (ss @ [g]) (type_name (ss ! i)) [] \<noteq> None"
            by (simp add: FindSummary_None_iff)
          then have "generate_for csv (ss @ [g]) (ss ! i) = ss @ [g]"
            by (rule generate_for_found)
          with True nth g(1) show ?thesis
            by simp
        next
          case False
          with j \<open>i < length ss\<close> "1.prems" have "generate_for csv ss (ss ! j) = ss"
            by simp
          with g(2) have "generate_for csv (ss @ [g]) (ss ! j) = ss @ [g]"
            by (rule generate_for_append_stable)
          with nth g(1) show ?thesis
            by simp
        qed
      qed
    qed
    have eq: "AutoGenerateSummaries_loop csv i ss = AutoGenerateSummaries_loop csv (i + 1) ?ss'"
      using True by (subst AutoGenerateSummaries_loop.simps) simp
    from "1.IH" [OF True inv] show ?thesis
      unfolding eq .
  qed
qed

lemma AutoGenerateSummaries_idem:
  "AutoGenerateSummaries csv (AutoGenerateSummaries csv ss) = AutoGenerateSummaries csv ss"
  unfolding AutoGenerateSummaries_def
  using loop_makes_stable [of 0 ss csv] by (intro loop_stable) simp


lemma loop_appends:
  "\<exists>gen. AutoGenerateSummaries_loop csv i ss = ss @ gen \<and>
     distinct (map type_name gen) \<and>
     (\<forall>g \<in> set gen. modifier g = [] \<and> auto_generated g \<and>
        FindSummary ss (type_name g) [] = None)"
proof (induction csv i ss rule: AutoGenerateSummaries_loop.induct)
  case (1 csv i ss)
  show ?case
  proof (cases "i < length ss")
    case False
    then have "AutoGenerateSummaries_loop csv i ss = ss @ []"
      by (subst AutoGenerateSummaries_loop.simps) simp
    then show ?thesis
      by (intro exI [of _ "[]"]) simp
  next
    case True
    let ?ss' = "generate_for csv ss (ss ! i)"
    have eq: "AutoGenerateSummaries_loop csv i ss = AutoGenerateSummaries_loop csv (i + 1) ?ss'"
      using True by (subst AutoGenerateSummaries_loop.simps) simp
    from "1.IH" [OF True] obtain gen where gen:
      "AutoGenerateSummaries_loop csv (i + 1) ?ss' = ?ss' @ gen"
      "distinct (map type_name gen)"
      "\<forall>g \<in> set gen. modifier g = [] \<and> auto_generated g \<and>
         FindSummary ?ss' (type_name g) [] = None"
      by blast
    from generate_for_cases [of csv ss "ss ! i"] show ?thesis
    proof
      assume "?ss' = ss"
      with gen eq show ?thesis
        by auto
    next
      assume "modifier (ss ! i) = ''u'' \<and>
          (\<exists>other. FindSummary ss (type_name (ss ! i)) ''k'' = Some other \<and>
             IsMonitoredAtTheSameTime other (ss ! i) \<and>
             FindSummary ss (type_name (ss ! i)) [] = None \<and>
             ?ss' = ss @ [new_CounterSummary (type_name (ss ! i)) [] (group_id (ss ! i))
                 (count (ss ! i) + count other) (scale (ss ! i)) True csv])"
      then obtain g where g: "?ss' = ss @ [g]" "modifier g = []" "auto_generated g"
        "FindSummary ss (type_name g) [] = None"
        by (auto simp add: new_CounterSummary_def)
      have fresh: "type_name h \<noteq> type_name g \<and> FindSummary ss (type_name h) [] = None"
        if "h \<in> set gen" for h
      proof -
        from that gen(3) g(1) have "FindSummary (ss @ [g]) (type_name h) [] = None"
          by simp
        then show ?thesis
          using g(2) by (auto simp add: FindSummary_append split: option.splits if_splits)
      qed
      from gen(1) g(1) eq have "AutoGenerateSummaries_loop csv i ss = ss @ (g # gen)"
        by simp
      moreover from fresh have "type_name g \<notin> set (map type_name gen)"
        by force
      with gen(2) have "distinct (map type_name (g # gen))"
        by simp
      moreover from fresh gen(3) g have "\<forall>h \<in> set (g # gen). modifier h = [] \<and>
        auto_generated h \<and> FindSummary ss (type_name h) [] = None"
        by auto
      ultimately show ?thesis
        by blast
    qed
  qed
qed

text \<open>
  The loop from index \<open>i\<close> on, started with the original summaries \<open>ss\<close> and the
  summaries \<open>gen\<close> generated so far: \<open>k\<close> is the index of the first summary of the
  type name \<open>tname\<close> with modifier \<^verbatim>\<open>u\<close>.
\<close>

lemma loop_generates:
  assumes k: "k < length ss" "type_name (ss ! k) = tname" "modifier (ss ! k) = ''u''"
      "\<forall>j < k. \<not> (type_name (ss ! j) = tname \<and> modifier (ss ! j) = ''u'')"
    and other: "FindSummary ss tname ''k'' = Some other"
      "IsMonitoredAtTheSameTime other (ss ! k)"
    and none: "FindSummary ss tname [] = None"
    and cur: "cur = ss @ gen" "\<forall>g \<in> set gen. modifier g = []"
      "filter (\<lambda>g. type_name g = tname) gen =
         (if i \<le> k then []
          else [new_CounterSummary tname [] (group_id (ss ! k)) (count (ss ! k) + count other)
                  (scale (ss ! k)) True csv])"
  shows "\<exists>gen'. AutoGenerateSummaries_loop csv i cur = ss @ gen' \<and>
    filter (\<lambda>g. type_name g = tname) gen' =
      [new_CounterSummary tname [] (group_id (ss ! k)) (count (ss ! k) + count other)
         (scale (ss ! k)) True csv]"
  using cur
proof (induction csv i cur arbitrary: gen rule: AutoGenerateSummaries_loop.induct)
  case (1 csv i cur)
  let ?G = "new_CounterSummary tname [] (group_id (ss ! k)) (count (ss ! k) + count other)
    (scale (ss ! k)) True csv"
  let ?P = "\<lambda>g. type_name g = tname"
  note cur = "1.prems"
  have findk: "FindSummary cur t ''k'' = FindSummary ss t ''k''" for t
    unfolding cur(1) using cur(2) by (intro FindSummary_append_other) simp
  show ?case
  proof (cases "i < length cur")
    case False
    with cur(1) k(1) have "\<not> i \<le> k"
      by simp
    moreover from False have "AutoGenerateSummaries_loop csv i cur = cur"
      by (subst AutoGenerateSummaries_loop.simps) simp
    ultimately show ?thesis
      using cur(1,3) by auto
  next
    case True
    let ?cur' = "generate_for csv cur (cur ! i)"
    have eq: "AutoGenerateSummaries_loop csv i cur = AutoGenerateSummaries_loop csv (i + 1) ?cur'"
      using True by (subst AutoGenerateSummaries_loop.simps) simp
    have "\<exists>gen'. ?cur' = ss @ gen' \<and> (\<forall>g \<in> set gen'. modifier g = []) \<and>
      filter ?P gen' = (if i + 1 \<le> k then [] else [?G])"
    proof (cases "i < length ss")
      case False
      with True cur(1) have "cur ! i \<in> set gen"
        by (simp add: nth_append)
      with cur(2) have "modifier (cur ! i) \<noteq> ''u''"
        by auto
      then have "?cur' = cur"
        by (rule generate_for_not_user)
      moreover from False k(1) have "\<not> i \<le> k" "\<not> i + 1 \<le> k"
        by simp_all
      ultimately show ?thesis
        using cur by auto
    next
      case iss: True
      then have x: "cur ! i = ss ! i"
        by (simp add: cur(1) nth_append)
      from generate_for_cases [of csv cur "cur ! i"] show ?thesis
      proof
        assume same: "?cur' = cur"
        have "i \<noteq> k"
        proof
          assume "i = k"
          with cur(3) have "\<forall>g \<in> set gen. type_name g \<noteq> tname"
            by (simp add: filter_empty_conv)
          then have "FindSummary gen tname [] = None"
            by (simp add: FindSummary_None_iff)
          with none have "FindSummary cur tname [] = None"
            by (simp add: cur(1) FindSummary_append)
          with \<open>i = k\<close> x k other findk [of tname] have "?cur' = cur @ [?G]"
            by (simp add: generate_for_def AddSummary_def)
          with same show False
            by simp
        qed
        with same cur show ?thesis
          by (intro exI [of _ gen]) auto
      next
        assume "modifier (cur ! i) = ''u'' \<and>
          (\<exists>other. FindSummary cur (type_name (cur ! i)) ''k'' = Some other \<and>
             IsMonitoredAtTheSameTime other (cur ! i) \<and>
             FindSummary cur (type_name (cur ! i)) [] = None \<and>
             ?cur' = cur @ [new_CounterSummary (type_name (cur ! i)) [] (group_id (cur ! i))
                 (count (cur ! i) + count other) (scale (cur ! i)) True csv])"
        then obtain o' where o': "modifier (ss ! i) = ''u''"
          "FindSummary ss (type_name (ss ! i)) ''k'' = Some o'"
          "FindSummary cur (type_name (ss ! i)) [] = None"
          "?cur' = cur @ [new_CounterSummary (type_name (ss ! i)) [] (group_id (ss ! i))
                 (count (ss ! i) + count o') (scale (ss ! i)) True csv]"
          unfolding x findk by blast
        let ?g = "new_CounterSummary (type_name (ss ! i)) [] (group_id (ss ! i))
                 (count (ss ! i) + count o') (scale (ss ! i)) True csv"
        from o'(3) have nogen: "\<forall>g \<in> set gen. type_name g \<noteq> type_name (ss ! i)"
          using cur(2) by (auto simp add: cur(1) FindSummary_append FindSummary_None_iff
              split: option.splits)
        have m: "modifier ?g = []" "type_name ?g = type_name (ss ! i)"
          by (simp_all add: new_CounterSummary_def)
        have "filter ?P (gen @ [?g]) = (if i + 1 \<le> k then [] else [?G])"
        proof (cases "i < k")
          case True
          with k(4) o'(1) have "type_name (ss ! i) \<noteq> tname"
            by auto
          with True cur(3) m show ?thesis
            by simp
        next
          case False
          show ?thesis
          proof (cases "i = k")
            case True
            with o'(2) k(2) other(1) have "o' = other"
              by simp
            with True k(2) cur(3) m show ?thesis
              by simp
          next
            case ne: False
            with False have gt: "k < i"
              by simp
            with cur(3) have "?G \<in> set (filter ?P gen)"
              by simp
            then have "?G \<in> set gen"
              by simp
            with nogen have "type_name (ss ! i) \<noteq> tname"
              by (auto simp add: new_CounterSummary_def)
            with gt cur(3) m show ?thesis
              by simp
          qed
        qed
        moreover have "?cur' = ss @ (gen @ [?g])"
          using o'(4) cur(1) by simp
        moreover have "\<forall>g \<in> set (gen @ [?g]). modifier g = []"
          using cur(2) m by simp
        ultimately show ?thesis
          by blast
      qed
    qed
    then obtain gen' where "?cur' = ss @ gen'" "\<forall>g \<in> set gen'. modifier g = []"
      "filter ?P gen' = (if i + 1 \<le> k then [] else [?G])"
      by blast
    from "1.IH" [OF True this] show ?thesis
      unfolding eq .
  qed
qed

lemma loop_step:
  "i < length ss \<Longrightarrow>
   AutoGenerateSummaries_loop csv i ss =
     AutoGenerateSummaries_loop csv (Suc i) (generate_for csv ss (ss ! i))"
  by (subst AutoGenerateSummaries_loop.simps) simp

lemma loop_done:
  "\<not> i < length ss \<Longrightarrow> AutoGenerateSummaries_loop csv i ss = ss"
  by (subst AutoGenerateSummaries_loop.simps) simp

lemma AutoGenerateSummaries_example:
  "AutoGenerateSummaries False
     [new_CounterSummary ''branch-misses'' ''u'' 1 30 1 False False,
      new_CounterSummary ''branch-misses'' ''k'' 1 20 1 False False] =
     [new_CounterSummary ''branch-misses'' ''u'' 1 30 1 False False,
      new_CounterSummary ''branch-misses'' ''k'' 1 20 1 False False,
      new_CounterSummary ''branch-misses'' [] 1 50 1 True False]"
  by (simp add: AutoGenerateSummaries_def loop_step loop_done generate_for_def AddSummary_def
      IsMonitoredAtTheSameTime_def new_CounterSummary_def)

section \<open>The claims\<close>

subsection \<open>C1: the scale of an aggregated summary\<close>

text \<open>
  Claim C1 says that the scale of every aggregated summary is at least 1.0, and that it
  is 1.0 if and only if the running-time sum is at least the enabled-time sum.  The
  first part and the direction from right to left hold.  The direction from left to
  right fails in two ways.  The quotient of two sums that differ by less than one part
  in \<open>2 ^ 53\<close> rounds to 1.0: enabled \<open>2 ^ 53 + 1\<close> and running \<open>2 ^ 53\<close> give scale
  1.0.  And the 64-bit running-time sum can wrap around to zero while the enabled-time
  sum is positive, and the guard \<^verbatim>\<open>time_running_sum != 0\<close> then leaves the scale at
  1.0.
\<close>

theorem summarize_scale_counterexample:
  "sum_counters
     [\<lparr>tid = 1, cpu = 0, counter =
        \<lparr>val = 7, time_enabled = 9007199254740993, time_running = 9007199254740992, id = 0\<rparr>\<rparr>]
     (0, 0, 0) = (7, 9007199254740993, 9007199254740992)
   \<and> (9007199254740992 :: 64 word) < 9007199254740993
   \<and> scale (summarize False \<lparr>event_name = ''cpu-cycles'', event_modifier = [],
        selection_group_id = 0, counters =
          [\<lparr>tid = 1, cpu = 0, counter =
             \<lparr>val = 7, time_enabled = 9007199254740993, time_running = 9007199254740992, id = 0\<rparr>\<rparr>]\<rparr>) = 1
   \<and> sum_counters
     [\<lparr>tid = 1, cpu = 0, counter =
        \<lparr>val = 7, time_enabled = 1, time_running = 9223372036854775808, id = 0\<rparr>\<rparr>,
      \<lparr>tid = 2, cpu = 0, counter =
        \<lparr>val = 7, time_enabled = 1, time_running = 9223372036854775808, id = 1\<rparr>\<rparr>]
     (0, 0, 0) = (14, 2, 0)
   \<and> (0 :: 64 word) < 2
   \<and> scale (summarize False \<lparr>event_name = ''cpu-cycles'', event_modifier = [],
        selection_group_id = 0, counters =
          [\<lparr>tid = 1, cpu = 0, counter =
             \<lparr>val = 7, time_enabled = 1, time_running = 9223372036854775808, id = 0\<rparr>\<rparr>,
           \<lparr>tid = 2, cpu = 0, counter =
             \<lparr>val = 7, time_enabled = 1, time_running = 9223372036854775808, id = 1\<rparr>\<rparr>]\<rparr>) = 1"
proof -
  have "round_double (round_double 9007199254740993 / round_double 9007199254740992) = 1"
    by code_simp
  then show ?thesis
    by (simp add: summarize_def new_CounterSummary_def compute_scale_def double_of_u64_def ddiv_def)
qed

text \<open>
  Claim C1, as amended: for every aggregated summary, with the 64-bit sums taken over
  the readouts whose running time is not zero, the scale is at least 1.0; it is 1.0
  whenever the running-time sum is at least the enabled-time sum or is zero, in
  particular when every readout is excluded; and it is greater than 1.0 when the
  running-time sum is not zero and below the enabled-time sum, and the enabled-time sum
  is below \<open>2 ^ 53\<close>.
\<close>

theorem summarize_scale:
  assumes "sum_counters (counters ci) (0, 0, 0) = (value_sum, time_enabled_sum, time_running_sum)"
  shows "1 \<le> scale (summarize csv ci) \<and>
    (time_enabled_sum \<le> time_running_sum \<or> time_running_sum = 0 \<longrightarrow>
       scale (summarize csv ci) = 1) \<and>
    (time_running_sum < time_enabled_sum \<and> time_running_sum \<noteq> 0 \<and>
       unat time_enabled_sum < 2 ^ 53 \<longrightarrow> 1 < scale (summarize csv ci)) \<and>
    ((\<forall>c \<in> set (counters ci). time_running (counter c) = 0) \<longrightarrow>
       scale (summarize csv ci) = 1)"
proof -
  have sc: "scale (summarize csv ci) = compute_scale time_enabled_sum time_running_sum"
    using assms by (simp add: summarize_def new_CounterSummary_def)
  have "time_running_sum = 0" if "\<forall>c \<in> set (counters ci). time_running (counter c) = 0"
  proof -
    from that have "filter (\<lambda>c. time_running (counter c) \<noteq> 0) (counters ci) = []"
      by (simp add: filter_empty_conv)
    with assms sum_counters_sums [of "counters ci" 0 0 0] show ?thesis
      by simp
  qed
  moreover have "compute_scale time_enabled_sum time_running_sum = 1"
    if "time_enabled_sum \<le> time_running_sum \<or> time_running_sum = 0"
    using that by (auto simp add: compute_scale_def)
  ultimately show ?thesis
    unfolding sc using compute_scale_ge_one compute_scale_gt_one by blast
qed

theorem summarize_scale_witness:
  "scale (summarize False \<lparr>event_name = ''cpu-cycles'', event_modifier = [], selection_group_id = 0,
      counters = [\<lparr>tid = 1, cpu = 0, counter = \<lparr>val = 7, time_enabled = 3, time_running = 2, id = 0\<rparr>\<rparr>,
                  \<lparr>tid = 2, cpu = 0, counter = \<lparr>val = 5, time_enabled = 3, time_running = 0, id = 1\<rparr>\<rparr>]\<rparr>) > 1
   \<and> scale (summarize False \<lparr>event_name = ''cpu-cycles'', event_modifier = [], selection_group_id = 0,
      counters = [\<lparr>tid = 1, cpu = 0, counter = \<lparr>val = 7, time_enabled = 3, time_running = 3, id = 0\<rparr>\<rparr>]\<rparr>) = 1
   \<and> scale (summarize False \<lparr>event_name = ''cpu-cycles'', event_modifier = [], selection_group_id = 0,
      counters = [\<lparr>tid = 2, cpu = 0, counter = \<lparr>val = 5, time_enabled = 3, time_running = 0, id = 1\<rparr>\<rparr>]\<rparr>) = 1"
proof -
  let ?a = "\<lparr>event_name = ''cpu-cycles'', event_modifier = [], selection_group_id = 0,
      counters = [\<lparr>tid = 1, cpu = 0, counter = \<lparr>val = 7, time_enabled = 3, time_running = 2, id = 0\<rparr>\<rparr>,
                  \<lparr>tid = 2, cpu = 0, counter = \<lparr>val = 5, time_enabled = 3, time_running = 0, id = 1\<rparr>\<rparr>]\<rparr>"
  let ?b = "\<lparr>event_name = ''cpu-cycles'', event_modifier = [], selection_group_id = 0,
      counters = [\<lparr>tid = 1, cpu = 0, counter = \<lparr>val = 7, time_enabled = 3, time_running = 3, id = 0\<rparr>\<rparr>]\<rparr>"
  let ?c = "\<lparr>event_name = ''cpu-cycles'', event_modifier = [], selection_group_id = 0,
      counters = [\<lparr>tid = 2, cpu = 0, counter = \<lparr>val = 5, time_enabled = 3, time_running = 0, id = 1\<rparr>\<rparr>]\<rparr>"
  have a: "sum_counters (counters ?a) (0, 0, 0) = (7, 3, 2)"
    by simp
  have b: "sum_counters (counters ?b) (0, 0, 0) = (7, 3, 3)"
    by simp
  have c: "sum_counters (counters ?c) (0, 0, 0) = (0, 0, 0)"
    by simp
  from summarize_scale [OF a, of False] summarize_scale [OF b, of False]
    summarize_scale [OF c, of False]
  show ?thesis
    by simp
qed

subsection \<open>C7: readouts that never ran\<close>

text \<open>
  Claim C7: a readout whose running time is zero contributes to none of the three sums.
  The sums over all readouts of a selection are the sums over the readouts with a
  running time that is not zero, and those are the plain sums of the three fields
  (64-bit, wrapping).
\<close>

theorem sum_counters_skips_not_running:
  "sum_counters cs (0, 0, 0) =
     sum_counters (filter (\<lambda>c. time_running (counter c) \<noteq> 0) cs) (0, 0, 0)
   \<and> sum_counters cs (0, 0, 0) =
     (sum_list (map (\<lambda>c. val (counter c)) (filter (\<lambda>c. time_running (counter c) \<noteq> 0) cs)),
      sum_list (map (\<lambda>c. time_enabled (counter c)) (filter (\<lambda>c. time_running (counter c) \<noteq> 0) cs)),
      sum_list (map (\<lambda>c. time_running (counter c)) (filter (\<lambda>c. time_running (counter c) \<noteq> 0) cs)))"
  using sum_counters_filter [of cs "(0, 0, 0)"] sum_counters_sums [of cs 0 0 0] by simp

theorem sum_counters_skips_not_running_witness:
  "sum_counters
     [\<lparr>tid = 1, cpu = 0, counter = \<lparr>val = 7, time_enabled = 3, time_running = 2, id = 0\<rparr>\<rparr>,
      \<lparr>tid = 2, cpu = 0, counter = \<lparr>val = 5, time_enabled = 4, time_running = 0, id = 1\<rparr>\<rparr>,
      \<lparr>tid = 3, cpu = 1, counter = \<lparr>val = 1, time_enabled = 6, time_running = 6, id = 2\<rparr>\<rparr>]
     (0, 0, 0) = (8, 9, 8)"
  using sum_counters_skips_not_running
    [of "[\<lparr>tid = 1, cpu = 0, counter = \<lparr>val = 7, time_enabled = 3, time_running = 2, id = 0\<rparr>\<rparr>,
      \<lparr>tid = 2, cpu = 0, counter = \<lparr>val = 5, time_enabled = 4, time_running = 0, id = 1\<rparr>\<rparr>,
      \<lparr>tid = 3, cpu = 1, counter = \<lparr>val = 1, time_enabled = 6, time_running = 6, id = 2\<rparr>\<rparr>]"]
  by simp

subsection \<open>C10: monitored at the same time\<close>

text \<open>
  Claim C10: the relation \<^verbatim>\<open>IsMonitoredAtTheSameTime\<close> is reflexive and symmetric.
\<close>

theorem IsMonitoredAtTheSameTime_refl_sym:
  "IsMonitoredAtTheSameTime s s \<and>
   IsMonitoredAtTheSameTime a b = IsMonitoredAtTheSameTime b a"
  by (auto simp add: IsMonitoredAtTheSameTime_def)

theorem IsMonitoredAtTheSameTime_refl_sym_witness:
  "IsMonitoredAtTheSameTime
     (new_CounterSummary ''cpu-cycles'' ''u'' 1 10 1 False False)
     (new_CounterSummary ''cpu-cycles'' ''u'' 1 10 1 False False)
   \<and> IsMonitoredAtTheSameTime
     (new_CounterSummary ''cpu-cycles'' ''u'' 1 10 1 False False)
     (new_CounterSummary ''cpu-cycles'' ''k'' 2 20 (3 / 2) False False)
   = IsMonitoredAtTheSameTime
     (new_CounterSummary ''cpu-cycles'' ''k'' 2 20 (3 / 2) False False)
     (new_CounterSummary ''cpu-cycles'' ''u'' 1 10 1 False False)"
  using IsMonitoredAtTheSameTime_refl_sym
    [of "new_CounterSummary ''cpu-cycles'' ''u'' 1 10 1 False False"
        "new_CounterSummary ''cpu-cycles'' ''u'' 1 10 1 False False"
        "new_CounterSummary ''cpu-cycles'' ''k'' 2 20 (3 / 2) False False"]
  by blast

subsection \<open>C6: the readable count\<close>

text \<open>
  Claim C6: for the clock events \<^verbatim>\<open>cpu-clock\<close> and \<^verbatim>\<open>task-clock\<close> the count, in
  nanoseconds, is divided by 1e6 and printed with \<^verbatim>\<open>%lf\<close> and the unit \<^verbatim>\<open>(ms)\<close>; for
  every other event the count is printed as its decimal digits, ungrouped in
  machine-parsable mode and with a comma every three digits from the least-significant
  end in table mode.  The digits denote the count, and the grouping adds nothing but
  commas.  The witness evaluates the three examples of the specification.
\<close>

theorem ReadableCountValue_format:
  "ReadableCountValue tname cnt csv =
     (if tname = ''cpu-clock'' \<or> tname = ''task-clock''
      then printf_f 6 (ddiv (double_of_u64 cnt) 1000000) @ ''(ms)''
      else if csv then decimal (unat cnt)
      else group_thousands (decimal (unat cnt)))
   \<and> foldl (\<lambda>a c. 10 * a + (of_char c - 48)) 0 (decimal (unat cnt)) = unat cnt
   \<and> filter (\<lambda>c. c \<noteq> CHR '','') (group_thousands (decimal (unat cnt))) = decimal (unat cnt)"
  unfolding ReadableCountValue_def Let_def comma_loop_group_thousands
  by (simp add: decimal_value group_thousands_digits decimal_no_comma)

theorem ReadableCountValue_format_witness:
  "ReadableCountValue ''task-clock'' 2000000 False = ''2.000000(ms)''
   \<and> ReadableCountValue ''cpu-clock'' 2000000 True = ''2.000000(ms)''
   \<and> ReadableCountValue ''instructions'' 1234567 False = ''1,234,567''
   \<and> ReadableCountValue ''instructions'' 1234567 True = ''1234567''"
proof -
  have "double_of_u64 2000000 = 2000000"
    using double_of_u64_exact [of 2000000] by simp
  then have "printf_f 6 (ddiv (double_of_u64 2000000) 1000000) = ''2.000000''"
    by (simp add: ddiv_def round_double_two printf_eval)
  moreover have "decimal (unat (1234567 :: 64 word)) = ''1234567''"
    by (simp add: decimal_eval)
  moreover have "group_thousands ''1234567'' = ''1,234,567''"
    by (simp add: group_thousands.simps)
  ultimately show ?thesis
    using ReadableCountValue_format [of "''task-clock''" 2000000 False]
      ReadableCountValue_format [of "''cpu-clock''" 2000000 True]
      ReadableCountValue_format [of "''instructions''" 1234567 False]
      ReadableCountValue_format [of "''instructions''" 1234567 True]
    by simp
qed

subsection \<open>C2: the rate comment\<close>

text \<open>
  Claim C2 says that the comment of every other event is the rate with the prefix G when
  the rate is at least 1e9, M when at least 1e6, K when at least 1e3, and that a count
  of 5,000,000 over one second at scale 1.0 gives \<^verbatim>\<open>5.000M/sec\<close>.  The source compares
  with \<^verbatim>\<open>>\<close>, so a rate of exactly 1e9 is printed with M, and it prints the separator
  \<^verbatim>\<open>sap_mid\<close> between the number and the unit: a space in table mode, a comma in
  machine-parsable mode.
\<close>

theorem GetCommentForSummary_rate_counterexample:
  "GetCommentForSummary False
     [new_CounterSummary ''page-faults'' [] 1 5000000 1 False False]
     (new_CounterSummary ''page-faults'' [] 1 5000000 1 False False) 1
   = Some ''5.000 M/sec''
   \<and> GetCommentForSummary True
     [new_CounterSummary ''page-faults'' [] 1 5000000 1 False True]
     (new_CounterSummary ''page-faults'' [] 1 5000000 1 False True) 1
   = Some ''5.000,M/sec''
   \<and> GetCommentForSummary False
     [new_CounterSummary ''page-faults'' [] 1 1000000000 1 False False]
     (new_CounterSummary ''page-faults'' [] 1 1000000000 1 False False) 1
   = Some ''1000.000 M/sec''"
proof -
  have e: "double_of_u64 5000000 = 5000000" "double_of_u64 1000000000 = 1000000000"
    using double_of_u64_exact [of 5000000] double_of_u64_exact [of 1000000000] by simp_all
  show ?thesis
    by (simp add: GetCommentForSummary_def cpi_comment_def miss_rate_comment_def EndsWith_def
        rate_comment_def ddiv_opt_def new_CounterSummary_def e ddiv_one_one ddiv_five
        ddiv_thousand sap_mid_def printf_eval)
qed

text \<open>
  Claim C2, as amended: for a summary whose type name is not \<^verbatim>\<open>task-clock\<close>,
  \<^verbatim>\<open>cpu-clock\<close> or \<^verbatim>\<open>cpu-cycles\<close>, that is not an \<^verbatim>\<open>instructions\<close> summary with a
  cycles pair and not a \<^verbatim>\<open>-misses\<close> summary with a matched pair, and for a positive
  duration and scale, the comment is the rate \<^verbatim>\<open>count / (duration / scale)\<close> printed
  with three decimals, then the separator (a space in table mode, a comma in
  machine-parsable mode), then the unit: \<^verbatim>\<open>G/sec\<close> with the rate divided by 1e9 when
  the rate is greater than 1e9, \<^verbatim>\<open>M/sec\<close> with the rate divided by 1e6 when it is
  greater than 1e6, \<^verbatim>\<open>K/sec\<close> with the rate divided by 1e3 when it is greater than
  1e3, and \<^verbatim>\<open>/sec\<close> otherwise.  A count of 5,000,000 over one second at scale 1.0 gives
  \<^verbatim>\<open>5.000 M/sec\<close> in table mode.
\<close>

theorem GetCommentForSummary_rate:
  assumes "type_name s \<noteq> ''task-clock''" "type_name s \<noteq> ''cpu-clock''"
    and "type_name s \<noteq> ''cpu-cycles''"
    and "\<not> (type_name s = ''instructions'' \<and> count s \<noteq> 0 \<and>
           (\<exists>other. FindSummary ss ''cpu-cycles'' (modifier s) = Some other \<and>
              IsMonitoredAtTheSameTime other s))"
    and "\<not> (EndsWith (type_name s) ''-misses'' \<and>
           (\<exists>other. FindSummary ss (misses_other_name (type_name s)) (modifier s) = Some other \<and>
              IsMonitoredAtTheSameTime other s \<and> count other \<noteq> 0))"
    and "0 < duration_in_sec" "0 < scale s"
  shows "let rate = ddiv (double_of_u64 (count s)) (ddiv duration_in_sec (scale s))
    in GetCommentForSummary csv ss s duration_in_sec =
       Some (if 1000000000 < rate
             then printf_f 3 (ddiv rate 1000000000) @ sap_mid csv # ''G/sec''
             else if 1000000 < rate
             then printf_f 3 (ddiv rate 1000000) @ sap_mid csv # ''M/sec''
             else if 1000 < rate
             then printf_f 3 (ddiv rate 1000) @ sap_mid csv # ''K/sec''
             else printf_f 3 rate @ sap_mid csv # ''/sec'')"
proof -
  from assms(4) have c: "cpi_comment csv ss s = None"
    by (auto simp add: cpi_comment_def split: option.split)
  from assms(5) have m: "miss_rate_comment csv ss s = None"
    by (auto simp add: miss_rate_comment_def split: option.split)
  from assms(6,7) have t: "0 < ddiv duration_in_sec (scale s)"
    by (rule ddiv_positive)
  have "rate_comment csv s duration_in_sec =
    (let rate = ddiv (double_of_u64 (count s)) (ddiv duration_in_sec (scale s))
     in Some (if 1000000000 < rate
             then printf_f 3 (ddiv rate 1000000000) @ sap_mid csv # ''G/sec''
             else if 1000000 < rate
             then printf_f 3 (ddiv rate 1000000) @ sap_mid csv # ''M/sec''
             else if 1000 < rate
             then printf_f 3 (ddiv rate 1000) @ sap_mid csv # ''K/sec''
             else printf_f 3 rate @ sap_mid csv # ''/sec''))"
    using assms(7) t by (simp add: rate_comment_def ddiv_opt_positive Let_def)
  with assms(1-3) c m show ?thesis
    by (simp add: GetCommentForSummary_def Let_def)
qed

theorem GetCommentForSummary_rate_witness:
  "GetCommentForSummary False
     [new_CounterSummary ''page-faults'' [] 1 5000000 1 False False]
     (new_CounterSummary ''page-faults'' [] 1 5000000 1 False False) 1
   = Some ''5.000 M/sec''"
proof -
  let ?s = "new_CounterSummary ''page-faults'' [] 1 5000000 1 False False"
  have e: "double_of_u64 5000000 = 5000000"
    using double_of_u64_exact [of 5000000] by simp
  have "type_name ?s \<noteq> ''task-clock''" "type_name ?s \<noteq> ''cpu-clock''"
    "type_name ?s \<noteq> ''cpu-cycles''"
    "\<not> (type_name ?s = ''instructions'' \<and> count ?s \<noteq> 0 \<and>
           (\<exists>other. FindSummary [?s] ''cpu-cycles'' (modifier ?s) = Some other \<and>
              IsMonitoredAtTheSameTime other ?s))"
    "\<not> (EndsWith (type_name ?s) ''-misses'' \<and>
           (\<exists>other. FindSummary [?s] (misses_other_name (type_name ?s)) (modifier ?s) = Some other \<and>
              IsMonitoredAtTheSameTime other ?s \<and> count other \<noteq> 0))"
    "(0::rat) < 1" "0 < scale ?s"
    by (simp_all add: new_CounterSummary_def EndsWith_def)
  from GetCommentForSummary_rate [OF this, of False] show ?thesis
    by (simp add: new_CounterSummary_def e ddiv_one_one ddiv_five sap_mid_def printf_eval)
qed

subsection \<open>C3: the combined summary\<close>

text \<open>
  Claim C3: when the summary \<open>s\<close> found for a type name with modifier \<^verbatim>\<open>u\<close> and the
  summary \<open>other\<close> found for the same type name with modifier \<^verbatim>\<open>k\<close> are monitored at the
  same time, and no summary of that type name without modifier exists, then
  \<^verbatim>\<open>AutoGenerateSummaries\<close> appends exactly one summary of that type name: it has no
  modifier, its count is the sum of the two counts, its scale and group are those of
  \<open>s\<close>, and it is marked as generated.  The summaries are looked up with
  \<^verbatim>\<open>FindSummary\<close>, as the source does; where the keys (type name, modifier) are unique,
  every summary is the one found for its key (\<open>FindSummary_distinct\<close>).
\<close>

theorem AutoGenerateSummaries_combines:
  assumes "FindSummary ss tname ''u'' = Some s"
    and "FindSummary ss tname ''k'' = Some other"
    and "IsMonitoredAtTheSameTime s other"
    and "FindSummary ss tname [] = None"
  shows "\<exists>gen g. AutoGenerateSummaries csv ss = ss @ gen \<and>
    filter (\<lambda>x. type_name x = tname) gen = [g] \<and>
    g = new_CounterSummary tname [] (group_id s) (count s + count other) (scale s) True csv \<and>
    type_name g = tname \<and> modifier g = [] \<and> count g = count s + count other \<and>
    scale g = scale s \<and> group_id g = group_id s \<and> auto_generated g"
proof -
  from FindSummary_Some_index [OF assms(1)] obtain k where k: "k < length ss" "ss ! k = s"
    "type_name s = tname" "modifier s = ''u''"
    "\<forall>j < k. \<not> (type_name (ss ! j) = tname \<and> modifier (ss ! j) = ''u'')"
    by blast
  from assms(3) have mon: "IsMonitoredAtTheSameTime other (ss ! k)"
    using k(2) by (auto simp add: IsMonitoredAtTheSameTime_def)
  have "\<exists>gen'. AutoGenerateSummaries_loop csv 0 ss = ss @ gen' \<and>
    filter (\<lambda>g. type_name g = tname) gen' =
      [new_CounterSummary tname [] (group_id (ss ! k)) (count (ss ! k) + count other)
         (scale (ss ! k)) True csv]"
    using k(1) _ _ k(5) assms(2) mon assms(4)
    by (rule loop_generates [where gen = "[]"]) (simp_all add: k)
  then show ?thesis
    unfolding AutoGenerateSummaries_def k(2) by (simp add: new_CounterSummary_def)
qed

theorem AutoGenerateSummaries_combines_witness:
  "\<exists>gen. AutoGenerateSummaries False
     [new_CounterSummary ''branch-misses'' ''u'' 1 30 1 False False,
      new_CounterSummary ''branch-misses'' ''k'' 1 20 1 False False] =
     [new_CounterSummary ''branch-misses'' ''u'' 1 30 1 False False,
      new_CounterSummary ''branch-misses'' ''k'' 1 20 1 False False] @ gen \<and>
     filter (\<lambda>x. type_name x = ''branch-misses'') gen =
       [new_CounterSummary ''branch-misses'' [] 1 50 1 True False] \<and>
     count (new_CounterSummary ''branch-misses'' [] 1 50 1 True False) = 50 \<and>
     auto_generated (new_CounterSummary ''branch-misses'' [] 1 50 1 True False)"
proof -
  let ?u = "new_CounterSummary ''branch-misses'' ''u'' 1 30 1 False False"
  let ?k = "new_CounterSummary ''branch-misses'' ''k'' 1 20 1 False False"
  have "FindSummary [?u, ?k] ''branch-misses'' ''u'' = Some ?u"
    "FindSummary [?u, ?k] ''branch-misses'' ''k'' = Some ?k"
    "IsMonitoredAtTheSameTime ?u ?k"
    "FindSummary [?u, ?k] ''branch-misses'' [] = None"
    by (simp_all add: new_CounterSummary_def IsMonitoredAtTheSameTime_def)
  from AutoGenerateSummaries_combines [OF this, of False] show ?thesis
    by (simp add: new_CounterSummary_def)
qed

subsection \<open>C4: generating twice\<close>

text \<open>
  Claim C4: \<^verbatim>\<open>AutoGenerateSummaries\<close> is idempotent.  A second run adds nothing; the
  summaries that a run appends have no modifier, are marked as generated and have
  pairwise different type names, none of which had a summary without modifier before.
\<close>

theorem AutoGenerateSummaries_idempotent:
  "AutoGenerateSummaries csv (AutoGenerateSummaries csv ss) = AutoGenerateSummaries csv ss
   \<and> (\<exists>gen. AutoGenerateSummaries csv ss = ss @ gen \<and> distinct (map type_name gen) \<and>
        (\<forall>g \<in> set gen. modifier g = [] \<and> auto_generated g \<and>
           FindSummary ss (type_name g) [] = None))"
  using AutoGenerateSummaries_idem [of csv ss] loop_appends [of csv 0 ss]
  by (simp add: AutoGenerateSummaries_def)

theorem AutoGenerateSummaries_idempotent_witness:
  "AutoGenerateSummaries False (AutoGenerateSummaries False
     [new_CounterSummary ''branch-misses'' ''u'' 1 30 1 False False,
      new_CounterSummary ''branch-misses'' ''k'' 1 20 1 False False]) =
     [new_CounterSummary ''branch-misses'' ''u'' 1 30 1 False False,
      new_CounterSummary ''branch-misses'' ''k'' 1 20 1 False False,
      new_CounterSummary ''branch-misses'' [] 1 50 1 True False]"
  using AutoGenerateSummaries_idempotent
    [of False "[new_CounterSummary ''branch-misses'' ''u'' 1 30 1 False False,
      new_CounterSummary ''branch-misses'' ''k'' 1 20 1 False False]"]
  by (simp only: AutoGenerateSummaries_example)

subsection \<open>C5: the miss rate\<close>

text \<open>
  Claim C5: for a type name \<open>p @ ''-misses''\<close> the paired name is \<^verbatim>\<open>cache-references\<close>
  for \<^verbatim>\<open>cache-misses\<close>, \<^verbatim>\<open>branch-instructions\<close> for \<^verbatim>\<open>branch-misses\<close> and \<open>p @ ''s''\<close>
  otherwise.  When a summary with the paired name and the same modifier is found, is
  monitored at the same time and has a count that is not zero, the comment is the
  quotient of the two counts times 100, printed with \<^verbatim>\<open>%lf\<close>, a percent sign, the
  separator and \<^verbatim>\<open>miss rate\<close>.  A type name ends in \<^verbatim>\<open>-misses\<close> exactly when it has the
  form \<open>p @ ''-misses''\<close> (\<open>EndsWith_iff\<close>).
\<close>

theorem GetCommentForSummary_miss_rate:
  assumes "type_name s = p @ ''-misses''"
    and "FindSummary ss
           (if p = ''cache'' then ''cache-references''
            else if p = ''branch'' then ''branch-instructions''
            else p @ ''s'') (modifier s) = Some other"
    and "IsMonitoredAtTheSameTime other s"
    and "count other \<noteq> 0"
  shows "GetCommentForSummary csv ss s duration_in_sec =
    Some (printf_f 6 (dmul (ddiv (double_of_u64 (count s)) (double_of_u64 (count other))) 100)
          @ CHR ''%'' # sap_mid csv # ''miss rate'')"
proof -
  have t: "type_name s \<noteq> ''task-clock''" "type_name s \<noteq> ''cpu-clock''"
    "type_name s \<noteq> ''cpu-cycles''" "type_name s \<noteq> ''instructions''"
    using assms(1) by auto
  from t(4) have c: "cpi_comment csv ss s = None"
    by (simp add: cpi_comment_def)
  have "miss_rate_comment csv ss s =
    Some (printf_f 6 (dmul (ddiv (double_of_u64 (count s)) (double_of_u64 (count other))) 100)
          @ CHR ''%'' # sap_mid csv # ''miss rate'')"
    using assms by (simp add: miss_rate_comment_def EndsWith_append misses_other_name_append)
  with t c show ?thesis
    by (simp add: GetCommentForSummary_def)
qed

theorem GetCommentForSummary_miss_rate_witness:
  "GetCommentForSummary False
     [new_CounterSummary ''branch-misses'' [] 1 50 1 False False,
      new_CounterSummary ''branch-instructions'' [] 1 1000 1 False False]
     (new_CounterSummary ''branch-misses'' [] 1 50 1 False False) 1
   = Some ''5.000000% miss rate''"
proof -
  let ?bm = "new_CounterSummary ''branch-misses'' [] 1 50 1 False False"
  let ?bi = "new_CounterSummary ''branch-instructions'' [] 1 1000 1 False False"
  have a: "type_name ?bm = ''branch'' @ ''-misses''"
    by (simp add: new_CounterSummary_def)
  have b: "FindSummary [?bm, ?bi]
           (if ''branch'' = ''cache'' then ''cache-references''
            else if ''branch'' = ''branch'' then ''branch-instructions''
            else ''branch'' @ ''s'') (modifier ?bm) = Some ?bi"
    by (simp add: new_CounterSummary_def)
  have c: "IsMonitoredAtTheSameTime ?bi ?bm"
    by (simp add: IsMonitoredAtTheSameTime_def new_CounterSummary_def)
  have d: "count ?bi \<noteq> 0"
    by (simp add: new_CounterSummary_def)
  have e: "double_of_u64 50 = 50" "double_of_u64 1000 = 1000"
    using double_of_u64_exact [of 50] double_of_u64_exact [of 1000] by simp_all
  have "printf_f 6 (dmul (ddiv (double_of_u64 (count ?bm)) (double_of_u64 (count ?bi))) 100)
      = ''5.000000''"
    by (simp add: new_CounterSummary_def e miss_rate_value printf_eval)
  with GetCommentForSummary_miss_rate [OF a b c d, of False 1] show ?thesis
    by (simp add: sap_mid_def)
qed

subsection \<open>C8: the target\<close>

text \<open>
  Claim C8: once the option loop has succeeded, parsing fails when system-wide
  collection is combined with thread or process ids, and when it is requested without
  root privilege.  When neither holds the check of the target succeeds, and
  \<^verbatim>\<open>ParseOptions\<close> then succeeds for every valid argument list, that is, unless
  \<^verbatim>\<open>--duration\<close> is combined with a command.
\<close>

theorem ParseOptions_target:
  assumes "ParseOptions_loop env (cmd, [], 0) args = Inr (cmd', tid_set, duration_in_sec, rest)"
  shows "(system_wide_collection cmd' \<and> tid_set \<noteq> [] \<longrightarrow>
      check_target env cmd' tid_set = Inl SystemWideWithThreads \<and>
      ParseOptions env cmd args = Inl SystemWideWithThreads)
    \<and> (system_wide_collection cmd' \<and> \<not> IsRoot env \<longrightarrow>
      isl (check_target env cmd' tid_set) \<and> isl (ParseOptions env cmd args))
    \<and> (\<not> (system_wide_collection cmd' \<and> monitored_threads cmd' @ tid_set \<noteq> []) \<and>
       \<not> (system_wide_collection cmd' \<and> \<not> IsRoot env) \<longrightarrow>
      check_target env cmd' tid_set =
        Inr (cmd'\<lparr>monitored_threads := monitored_threads cmd' @ tid_set\<rparr>) \<and>
      (\<not> (duration_in_sec \<noteq> 0 \<and> rest \<noteq> []) \<longrightarrow>
        ParseOptions env cmd args =
          Inr (cmd'\<lparr>monitored_threads := monitored_threads cmd' @ tid_set\<rparr>,
               if duration_in_sec \<noteq> 0 then [''sleep'', printf_f 6 duration_in_sec]
               else rest)))"
  using assms
  by (auto simp add: ParseOptions_def check_target_def collect_non_option_args_def Let_def)

theorem ParseOptions_target_witness:
  "ParseOptions (example_env True) (StatCommand_init ()) [''-a'', ''-p'', ''1''] =
       Inl SystemWideWithThreads
   \<and> ParseOptions (example_env False) (StatCommand_init ()) [''-a''] = Inl NeedsRoot
   \<and> ParseOptions (example_env False) (StatCommand_init ()) [''-p'', ''1'', ''ls''] =
       Inr ((StatCommand_init ())\<lparr>monitored_threads := [1]\<rparr>, [''ls''])
   \<and> ParseOptions (example_env True) (StatCommand_init ()) [''-a'', ''--duration'', ''1''] =
       Inr ((StatCommand_init ())\<lparr>system_wide_collection := True\<rparr>, [''sleep'', ''1.000000''])"
proof -
  have a: "ParseOptions_loop (example_env True) (StatCommand_init (), [], 0) [''-a'', ''-p'', ''1''] =
    Inr ((StatCommand_init ())\<lparr>system_wide_collection := True\<rparr>, [1], 0, [])"
    by (simp add: example_env_def)
  have b: "ParseOptions_loop (example_env False) (StatCommand_init (), [], 0) [''-a''] =
    Inr ((StatCommand_init ())\<lparr>system_wide_collection := True\<rparr>, [], 0, [])"
    by (simp add: example_env_def)
  have c: "ParseOptions_loop (example_env False) (StatCommand_init (), [], 0) [''-p'', ''1'', ''ls''] =
    Inr (StatCommand_init (), [1], 0, [''ls''])"
    by (simp add: example_env_def)
  have d: "ParseOptions_loop (example_env True) (StatCommand_init (), [], 0)
      [''-a'', ''--duration'', ''1''] =
    Inr ((StatCommand_init ())\<lparr>system_wide_collection := True\<rparr>, [], 1, [])"
    by (simp add: example_env_def)
  have p: "printf_f 6 1 = ''1.000000''"
    by (simp add: printf_eval)
  from ParseOptions_target [OF a] ParseOptions_target [OF b] ParseOptions_target [OF c]
    ParseOptions_target [OF d]
  show ?thesis
    by (auto simp add: example_env_def StatCommand_init_def p check_target_def
        ParseOptions_def collect_non_option_args_def)
qed

subsection \<open>C9: the measurement window\<close>

text \<open>
  Claim C9: while the termination flag stays unset the control stays in the loop
  \<^verbatim>\<open>while (!signaled) sleep(1)\<close>: no run without a signal reaches the stage that reads
  and reports the counters.  The witness also shows that the stage is reached once the
  handler has set the flag.
\<close>

theorem window_stays_counting:
  assumes "stage w = Counting" "\<not> signaled w" "quiet_step\<^sup>*\<^sup>* w w'"
  shows "stage w' = Counting \<and> \<not> signaled w'"
  using assms(3,1,2)
proof (induction rule: rtranclp_induct)
  case base
  then show ?case by simp
next
  case (step y z)
  then have "stage y = Counting" "\<not> signaled y"
    by simp_all
  moreover from step.hyps(2) have "step y z" "\<not> signaled z"
    by (simp_all add: quiet_step_def)
  ultimately show ?case
    by (auto elim: step.cases)
qed

theorem window_stays_counting_witness:
  "quiet_step\<^sup>*\<^sup>* \<lparr>stage = Counting, signaled = False, slept = 0\<rparr>
      \<lparr>stage = Counting, signaled = False, slept = 2\<rparr>
   \<and> stage \<lparr>stage = Counting, signaled = False, slept = 2\<rparr> = Counting
   \<and> step\<^sup>*\<^sup>* \<lparr>stage = Counting, signaled = False, slept = 0\<rparr>
      \<lparr>stage = Reading, signaled = True, slept = 0\<rparr>"
proof -
  let ?w0 = "\<lparr>stage = Counting, signaled = False, slept = 0\<rparr>"
  let ?w1 = "\<lparr>stage = Counting, signaled = False, slept = 1\<rparr>"
  let ?w2 = "\<lparr>stage = Counting, signaled = False, slept = 2\<rparr>"
  let ?s = "\<lparr>stage = Counting, signaled = True, slept = 0\<rparr>"
  let ?r = "\<lparr>stage = Reading, signaled = True, slept = 0\<rparr>"
  have "quiet_step ?w0 ?w1" "quiet_step ?w1 ?w2"
    using step.sleep [of ?w0] step.sleep [of ?w1] by (simp_all add: quiet_step_def numeral_2_eq_2)
  then have q: "quiet_step\<^sup>*\<^sup>* ?w0 ?w2"
    by (meson rtranclp.rtrancl_into_rtrancl rtranclp.rtrancl_refl)
  have "step ?w0 ?s" "step ?s ?r"
    using step.signal_handler [of ?w0] step.leave [of ?s] by simp_all
  then have "step\<^sup>*\<^sup>* ?w0 ?r"
    by (meson rtranclp.rtrancl_into_rtrancl rtranclp.rtrancl_refl)
  with q window_stays_counting [of ?w0 ?w2] show ?thesis
    by simp
qed

end
